theory Spec2Isabelle
  imports Complex_Main "HOL-Library.Word" "HOL-Library.Log_Nat" "HOL-Library.Sublist"
begin

unbundle bit_operations_syntax

section \<open>JavaScript numbers\<close>

text \<open>
  Every number of \<^verbatim>\<open>scripts/apply_breath_envelope.js\<close> is an IEEE-754 binary64 value.
  A finite value is kept as the rational it denotes; the two infinities and NaN are
  constructors of their own. The two zeros are one value here: the script never divides
  by a negative zero and never prints a number, so the sign of a zero is not observable.

  An arithmetic operation computes the exact rational result and rounds it to the nearest
  binary64 value, ties to even (\<open>round_to 53 (-1022)\<close>); a result beyond the largest finite
  value becomes an infinity. A \<^verbatim>\<open>Float32Array\<close> element is rounded a second time, to
  binary32 (\<open>round_to 24 (-126)\<close>).
\<close>

datatype number = Fin rat | PInf | NInf | NaN

definition ilog2 :: "rat \<Rightarrow> int" where
  "ilog2 x = (case quotient_of x of (a, b) \<Rightarrow>
     (let d = bitlen a - bitlen b in if 2 powi d \<le> x then d else d - 1))"

definition rne :: "rat \<Rightarrow> int" where
  "rne q = (let f = \<lfloor>q\<rfloor>; d = q - of_int f in
     if d < 1 / 2 then f else if 1 / 2 < d then f + 1 else if even f then f else f + 1)"

definition round_to :: "nat \<Rightarrow> int \<Rightarrow> rat \<Rightarrow> rat" where
  "round_to p emin x = (if x = 0 then 0 else
     (let e = max (ilog2 \<bar>x\<bar>) emin; u = 2 powi (e - int p + 1) in of_int (rne (x / u)) * u))"

definition fl64 :: "rat \<Rightarrow> rat" where
  "fl64 = round_to 53 (- 1022)"

definition fl32 :: "rat \<Rightarrow> rat" where
  "fl32 = round_to 24 (- 126)"

text \<open>The largest finite values, \<open>(2\<^sup>5\<^sup>3 - 1) \<sqdot> 2\<^sup>9\<^sup>7\<^sup>1\<close> and \<open>(2\<^sup>2\<^sup>4 - 1) \<sqdot> 2\<^sup>1\<^sup>0\<^sup>4\<close>, written out.\<close>

definition max_double :: rat where
  "max_double = 179769313486231570814527423731704356798070567525844996598917476803157260780028538760589558632766878171540458953514382464234321326889464182768467546703537516986049910576551282076245490090389328944075868508455133942304583236903222948165808559332123348274797826204144723168738177180919299881250404026184124858368"

definition max_float32 :: rat where
  "max_float32 = 340282346638528859811704183484516925440"

definition to_double :: "rat \<Rightarrow> number" where
  "to_double x = (let r = fl64 x in
     if max_double < r then PInf else if r < - max_double then NInf else Fin r)"

text \<open>Storing into a \<^verbatim>\<open>Float32Array\<close> and reading the element back.\<close>

fun to_float32 :: "number \<Rightarrow> number" where
  "to_float32 (Fin x) = (let r = fl32 x in
     if max_float32 < r then PInf else if r < - max_float32 then NInf else Fin r)"
| "to_float32 v = v"

fun js_div :: "number \<Rightarrow> number \<Rightarrow> number" where
  "js_div (Fin x) (Fin y) =
     (if y = 0 then (if x = 0 then NaN else if 0 < x then PInf else NInf)
      else to_double (x / y))"
| "js_div (Fin x) PInf = Fin 0"
| "js_div (Fin x) NInf = Fin 0"
| "js_div PInf (Fin y) = (if 0 \<le> y then PInf else NInf)"
| "js_div NInf (Fin y) = (if 0 \<le> y then NInf else PInf)"
| "js_div a b = NaN"

fun js_mul :: "number \<Rightarrow> number \<Rightarrow> number" where
  "js_mul (Fin x) (Fin y) = to_double (x * y)"
| "js_mul (Fin x) PInf = (if x = 0 then NaN else if 0 < x then PInf else NInf)"
| "js_mul (Fin x) NInf = (if x = 0 then NaN else if 0 < x then NInf else PInf)"
| "js_mul PInf (Fin y) = (if y = 0 then NaN else if 0 < y then PInf else NInf)"
| "js_mul NInf (Fin y) = (if y = 0 then NaN else if 0 < y then NInf else PInf)"
| "js_mul PInf PInf = PInf"
| "js_mul PInf NInf = NInf"
| "js_mul NInf PInf = NInf"
| "js_mul NInf NInf = PInf"
| "js_mul a b = NaN"

fun js_add :: "number \<Rightarrow> number \<Rightarrow> number" where
  "js_add (Fin x) (Fin y) = to_double (x + y)"
| "js_add (Fin x) PInf = PInf"
| "js_add (Fin x) NInf = NInf"
| "js_add PInf (Fin y) = PInf"
| "js_add NInf (Fin y) = NInf"
| "js_add PInf PInf = PInf"
| "js_add NInf NInf = NInf"
| "js_add a b = NaN"

fun js_sub :: "number \<Rightarrow> number \<Rightarrow> number" where
  "js_sub (Fin x) (Fin y) = to_double (x - y)"
| "js_sub (Fin x) PInf = NInf"
| "js_sub (Fin x) NInf = PInf"
| "js_sub PInf (Fin y) = PInf"
| "js_sub NInf (Fin y) = NInf"
| "js_sub PInf NInf = PInf"
| "js_sub NInf PInf = NInf"
| "js_sub a b = NaN"

text \<open>The comparisons \<^verbatim>\<open><=\<close> and \<^verbatim>\<open><\<close>: false as soon as an operand is NaN.\<close>

fun js_le :: "number \<Rightarrow> number \<Rightarrow> bool" where
  "js_le (Fin x) (Fin y) = (x \<le> y)"
| "js_le NaN b = False"
| "js_le a NaN = False"
| "js_le NInf b = True"
| "js_le a PInf = True"
| "js_le a b = False"

fun js_lt :: "number \<Rightarrow> number \<Rightarrow> bool" where
  "js_lt (Fin x) (Fin y) = (x < y)"
| "js_lt NaN b = False"
| "js_lt a NaN = False"
| "js_lt PInf b = False"
| "js_lt a NInf = False"
| "js_lt a b = True"

fun math_min :: "number \<Rightarrow> number \<Rightarrow> number" where
  "math_min NaN b = NaN"
| "math_min a NaN = NaN"
| "math_min a b = (if js_le a b then a else b)"

fun math_max :: "number \<Rightarrow> number \<Rightarrow> number" where
  "math_max NaN b = NaN"
| "math_max a NaN = NaN"
| "math_max a b = (if js_le a b then b else a)"

fun math_floor :: "number \<Rightarrow> number" where
  "math_floor (Fin x) = Fin (of_int \<lfloor>x\<rfloor>)"
| "math_floor v = v"

text \<open>\<^verbatim>\<open>Math.PI\<close>, the binary64 value nearest to the circle constant.\<close>

definition math_PI :: number where
  "math_PI = Fin (884279719003555 / 281474976710656)"

text \<open>
  The integer a number becomes when it is stored into a byte of a buffer or shifted
  (\<^verbatim>\<open>ToInt32\<close> before the reduction modulo a power of two): NaN and the infinities
  become 0, a finite value is truncated.
\<close>

fun to_integer :: "number \<Rightarrow> int" where
  "to_integer (Fin x) = (if 0 \<le> x then \<lfloor>x\<rfloor> else \<lceil>x\<rceil>)"
| "to_integer v = 0"

section \<open>Buffers\<close>

text \<open>
  A Node.js \<^verbatim>\<open>Buffer\<close> is a list of bytes. Node's accessors raise a
  \<^verbatim>\<open>RangeError\<close> when an offset or a value is out of range; the script's own
  \<^verbatim>\<open>throw new Error(...)\<close> are the other constructors, under the names the
  specification gives them.
\<close>

type_synonym byte = "8 word"

type_synonym buffer = "byte list"

datatype error =
    NotRiffWave
  | MissingFmtChunk
  | UnsupportedFormat
  | UnsupportedChannels
  | UnsupportedBitDepth
  | MissingDataChunk
  | RangeError

text \<open>A statement that may throw, followed by the rest of the function.\<close>

definition and_then :: "error + 'a \<Rightarrow> ('a \<Rightarrow> error + 'b) \<Rightarrow> error + 'b" where
  "and_then m rest = (case m of Inl e \<Rightarrow> Inl e | Inr v \<Rightarrow> rest v)"

text \<open>\<^verbatim>\<open>buf.slice(start, end)\<close> for non-negative arguments: both ends are clamped to the length.\<close>

definition slice :: "buffer \<Rightarrow> nat \<Rightarrow> nat \<Rightarrow> buffer" where
  "slice buf start end = take (end - start) (drop start buf)"

text \<open>
  \<^verbatim>\<open>buf.toString('ascii', start, end)\<close>: Node's \<^verbatim>\<open>'ascii'\<close> decoding clears the
  highest bit of every byte before it decodes the byte as a character.
\<close>

definition toString_ascii :: "buffer \<Rightarrow> nat \<Rightarrow> nat \<Rightarrow> string" where
  "toString_ascii buf start end = map (\<lambda>b. char_of (uint (b AND 127))) (slice buf start end)"

text \<open>The bytes of a string literal of the script (all its literals are ASCII).\<close>

definition bytes_of :: "string \<Rightarrow> buffer" where
  "bytes_of s = map of_char s"

text \<open>\<^verbatim>\<open>buf.indexOf(pattern)\<close>: the first offset where the pattern occurs, or -1.\<close>

fun indexOf :: "buffer \<Rightarrow> buffer \<Rightarrow> int" where
  "indexOf [] pat = (if pat = [] then 0 else - 1)"
| "indexOf (b # bs) pat =
     (if prefix pat (b # bs) then 0
      else (let r = indexOf bs pat in if r < 0 then - 1 else r + 1))"

definition readUInt16LE :: "buffer \<Rightarrow> int \<Rightarrow> error + nat" where
  "readUInt16LE buf offset =
     (if 0 \<le> offset \<and> offset + 2 \<le> int (length buf)
      then Inr (nat (uint (buf ! nat offset) + 256 * uint (buf ! (nat offset + 1))))
      else Inl RangeError)"

definition readUInt32LE :: "buffer \<Rightarrow> int \<Rightarrow> error + nat" where
  "readUInt32LE buf offset =
     (if 0 \<le> offset \<and> offset + 4 \<le> int (length buf)
      then Inr (nat (uint (buf ! nat offset) + 256 * uint (buf ! (nat offset + 1))
                     + 65536 * uint (buf ! (nat offset + 2))
                     + 16777216 * uint (buf ! (nat offset + 3))))
      else Inl RangeError)"

definition readInt16LE :: "buffer \<Rightarrow> int \<Rightarrow> error + int" where
  "readInt16LE buf offset =
     (if 0 \<le> offset \<and> offset + 2 \<le> int (length buf)
      then (let v = uint (buf ! nat offset) + 256 * uint (buf ! (nat offset + 1))
            in Inr (if 32768 \<le> v then v - 65536 else v))
      else Inl RangeError)"

text \<open>
  \<^verbatim>\<open>buf.writeInt16LE(value, offset)\<close>: the value is checked against the 16-bit range
  first (a NaN passes both comparisons), then the offset; the two bytes stored are the
  value and the value shifted right by 8, each reduced modulo 256.
\<close>

definition writeInt16LE :: "buffer \<Rightarrow> number \<Rightarrow> int \<Rightarrow> error + buffer" where
  "writeInt16LE buf v offset =
     (if js_lt (Fin 32767) v \<or> js_lt v (Fin (- 32768)) then Inl RangeError
      else if \<not> (0 \<le> offset \<and> offset + 2 \<le> int (length buf)) then Inl RangeError
      else (let n = to_integer v in
            Inr (buf[nat offset := word_of_int n, nat offset + 1 := word_of_int (n div 256)])))"

definition writeUInt32LE :: "buffer \<Rightarrow> int \<Rightarrow> int \<Rightarrow> error + buffer" where
  "writeUInt32LE buf v offset =
     (if 4294967295 < v \<or> v < 0 then Inl RangeError
      else if \<not> (0 \<le> offset \<and> offset + 4 \<le> int (length buf)) then Inl RangeError
      else Inr (buf[nat offset := word_of_int v,
                    nat offset + 1 := word_of_int (v div 256),
                    nat offset + 2 := word_of_int (v div 65536),
                    nat offset + 3 := word_of_int (v div 16777216)]))"

section \<open>The envelope generator\<close>

text \<open>
  \<^verbatim>\<open>Math.cos\<close> is left to the engine by the language definition, so it is a parameter
  \<open>mcos\<close> of the model. The body of the loop of \<^verbatim>\<open>breathingEnvelope\<close> is split
  into the test of its \<^verbatim>\<open>if\<close> and the two branches.
\<close>

definition inhale_test :: "number \<Rightarrow> number \<Rightarrow> bool" where
  "inhale_test t inhaleEnd = js_le t inhaleEnd"

definition inhale_amp :: "(number \<Rightarrow> number) \<Rightarrow> number \<Rightarrow> number \<Rightarrow> number" where
  "inhale_amp mcos inhaleEnd t =
     (let x = js_div t inhaleEnd
      in js_sub (Fin (1 / 2)) (js_mul (Fin (1 / 2)) (mcos (js_mul math_PI x))))"

definition exhale_amp :: "(number \<Rightarrow> number) \<Rightarrow> number \<Rightarrow> number \<Rightarrow> number" where
  "exhale_amp mcos inhaleEnd t =
     (let x = js_div (js_sub t inhaleEnd) inhaleEnd
      in js_add (Fin (1 / 2)) (js_mul (Fin (1 / 2)) (mcos (js_mul math_PI x))))"

definition envelope_amp :: "(number \<Rightarrow> number) \<Rightarrow> number \<Rightarrow> number \<Rightarrow> number" where
  "envelope_amp mcos inhaleEnd t =
     (if inhale_test t inhaleEnd then inhale_amp mcos inhaleEnd t
      else exhale_amp mcos inhaleEnd t)"

text \<open>\<^verbatim>\<open>envelope[i] = amp\<close> on a \<^verbatim>\<open>Float32Array\<close>: a store past the end is dropped.\<close>

definition float32_store :: "number list \<Rightarrow> nat \<Rightarrow> number \<Rightarrow> number list" where
  "float32_store envelope i amp =
     (if i < length envelope then envelope[i := to_float32 amp] else envelope)"

function envelope_loop ::
  "(number \<Rightarrow> number) \<Rightarrow> rat \<Rightarrow> number \<Rightarrow> number \<Rightarrow> nat \<Rightarrow> number list \<Rightarrow> number list" where
  "envelope_loop mcos totalSamples sampleRate inhaleEnd i envelope =
     (if of_nat i < totalSamples then
        (let t = js_div (Fin (of_nat i)) sampleRate;
             amp = envelope_amp mcos inhaleEnd t
         in envelope_loop mcos totalSamples sampleRate inhaleEnd (Suc i)
              (float32_store envelope i amp))
      else envelope)"
  by pat_completeness auto
termination
proof (relation "measure (\<lambda>(mcos, n, r, h, i, e). nat \<lceil>n\<rceil> - i)")
  show "wf (measure (\<lambda>(mcos, n, r, h, i, e). nat \<lceil>n :: rat\<rceil> - i))"
    by simp
next
  fix mcos :: "number \<Rightarrow> number" and totalSamples :: rat and sampleRate inhaleEnd :: number
    and i :: nat and envelope :: "number list" and x xa
  assume "of_nat i < totalSamples"
  then have "int i < \<lceil>totalSamples\<rceil>"
    by (simp add: less_ceiling_iff)
  then show "((mcos, totalSamples, sampleRate, inhaleEnd, Suc i, float32_store envelope i xa),
              (mcos, totalSamples, sampleRate, inhaleEnd, i, envelope))
             \<in> measure (\<lambda>(mcos, n, r, h, i, e). nat \<lceil>n\<rceil> - i)"
    by simp
qed

declare envelope_loop.simps [simp del]

text \<open>
  \<^verbatim>\<open>new Float32Array(totalSamples)\<close> takes the integer part of its argument as the
  length (NaN counts as 0) and raises a \<^verbatim>\<open>RangeError\<close> on a negative or infinite
  length; the limit that the memory of the machine puts on the length is not modelled.
\<close>

definition breathingEnvelope ::
  "(number \<Rightarrow> number) \<Rightarrow> number \<Rightarrow> number \<Rightarrow> error + number list" where
  "breathingEnvelope mcos totalSamples sampleRate =
     (let duration = js_div totalSamples sampleRate;
          inhaleEnd = js_div duration (Fin 2)
      in case totalSamples of
           Fin n \<Rightarrow>
             if n \<le> - 1 then Inl RangeError
             else Inr (envelope_loop mcos n sampleRate inhaleEnd 0 (replicate (nat \<lfloor>n\<rfloor>) (Fin 0)))
         | NaN \<Rightarrow> Inr []
         | _ \<Rightarrow> Inl RangeError)"

section \<open>The WAV transcoder\<close>

record parsed =
  sampleRate :: nat
  samples :: buffer
  sampleCount :: number
  header :: buffer

definition parseWav :: "buffer \<Rightarrow> error + parsed" where
  "parseWav buffer =
     (if toString_ascii buffer 0 4 \<noteq> ''RIFF'' \<or> toString_ascii buffer 8 12 \<noteq> ''WAVE''
      then Inl NotRiffWave
      else
        (let fmtIndex = indexOf buffer (bytes_of ''fmt '') in
         if fmtIndex < 0 then Inl MissingFmtChunk
         else
           and_then (readUInt16LE buffer (fmtIndex + 8)) (\<lambda>audioFormat.
           and_then (readUInt16LE buffer (fmtIndex + 10)) (\<lambda>numChannels.
           and_then (readUInt32LE buffer (fmtIndex + 12)) (\<lambda>rate.
           and_then (readUInt16LE buffer (fmtIndex + 22)) (\<lambda>bitsPerSample.
             if audioFormat \<noteq> 1 then Inl UnsupportedFormat
             else if numChannels \<noteq> 1 then Inl UnsupportedChannels
             else if bitsPerSample \<noteq> 16 then Inl UnsupportedBitDepth
             else
               (let dataIndex = indexOf buffer (bytes_of ''data'') in
                if dataIndex < 0 then Inl MissingDataChunk
                else
                  and_then (readUInt32LE buffer (dataIndex + 4)) (\<lambda>dataSize.
                    (let dataStart = nat (dataIndex + 8);
                         dataEnd = dataStart + dataSize;
                         dataBuf = slice buffer dataStart dataEnd;
                         count = js_div (Fin (of_nat dataSize)) (Fin 2)
                     in Inr \<lparr> sampleRate = rate, samples = dataBuf,
                              sampleCount = count, header = slice buffer 0 dataStart \<rparr>)))))))))"

text \<open>
  Lines 70 and 71 of the script: the number handed to \<^verbatim>\<open>Math.floor\<close>, and the number
  handed to \<^verbatim>\<open>writeInt16LE\<close>.
\<close>

definition scaled_value :: "int \<Rightarrow> number \<Rightarrow> number" where
  "scaled_value sample gain =
     (let scaled = math_max (Fin (- 1))
                     (math_min (Fin 1) (js_mul (js_div (Fin (of_int sample)) (Fin 32767)) gain))
      in js_mul scaled (Fin 32767))"

definition scale_sample :: "int \<Rightarrow> number \<Rightarrow> number" where
  "scale_sample sample gain = math_floor (scaled_value sample gain)"

function apply_loop :: "buffer \<Rightarrow> number list \<Rightarrow> nat \<Rightarrow> buffer \<Rightarrow> error + buffer" where
  "apply_loop pcm envelope i out =
     (if i < length envelope then
        and_then (readInt16LE pcm (int i * 2)) (\<lambda>sample.
        and_then (writeInt16LE out (scale_sample sample (envelope ! i)) (int i * 2)) (\<lambda>out'.
          apply_loop pcm envelope (Suc i) out'))
      else Inr out)"
  by pat_completeness auto
termination
  by (relation "measure (\<lambda>(pcm, envelope, i, out). length envelope - i)") auto

declare apply_loop.simps [simp del]

definition applyEnvelopeToSamples :: "parsed \<Rightarrow> number list \<Rightarrow> error + buffer" where
  "applyEnvelopeToSamples p envelope =
     apply_loop (samples p) envelope 0 (replicate (length (samples p)) 0)"

text \<open>
  \<^verbatim>\<open>processFile\<close> from the bytes read from the input file to the bytes written to the
  output file. The file system (the test for the file, the output path, the log line) is
  left out.
\<close>

definition processFile :: "(number \<Rightarrow> number) \<Rightarrow> buffer \<Rightarrow> error + buffer" where
  "processFile mcos buffer =
     and_then (parseWav buffer) (\<lambda>p.
     and_then (breathingEnvelope mcos (sampleCount p) (Fin (of_nat (sampleRate p)))) (\<lambda>envelope.
     and_then (applyEnvelopeToSamples p envelope) (\<lambda>processed.
       (let newDataSize = int (length processed);
            newFileBuffer = header p @ processed
        in and_then (writeUInt32LE newFileBuffer (int (length newFileBuffer) - 8) 4) (\<lambda>patched.
             (let dataIndex = indexOf patched (bytes_of ''data'')
              in writeUInt32LE patched newDataSize (dataIndex + 4)))))))"

section \<open>Fixtures\<close>

text \<open>
  A stand-in for the engine's cosine where a closed statement needs a concrete one: the
  chord of the cosine over \<open>[0, \<pi>]\<close>, clamped to \<open>[-1, 1]\<close>. It is 1 at 0 and -1 at
  \<^verbatim>\<open>Math.PI\<close>, as the engines' \<^verbatim>\<open>Math.cos\<close> is, and it never increases.
\<close>

fun chord_cos :: "number \<Rightarrow> number" where
  "chord_cos (Fin x) = Fin (max (- 1) (min 1 (1 - 2 * x / (884279719003555 / 281474976710656))))"
| "chord_cos v = NaN"

text \<open>
  A canonical 44-byte header (8000 Hz; the RIFF size field left at 0) with the audio
  format, the channel count, the bit depth and the declared data size as parameters, each
  below 256. A test file is such a header followed by the payload.
\<close>

definition wav_header :: "byte \<Rightarrow> byte \<Rightarrow> byte \<Rightarrow> byte \<Rightarrow> buffer" where
  "wav_header audioFormat numChannels bitsPerSample dataSize =
     [82, 73, 70, 70, 0, 0, 0, 0, 87, 65, 86, 69,
      102, 109, 116, 32, 16, 0, 0, 0, audioFormat, 0, numChannels, 0,
      64, 31, 0, 0, 128, 62, 0, 0, 2, 0, bitsPerSample, 0,
      100, 97, 116, 97, dataSize, 0, 0, 0]"

text \<open>
  A file of 1163280763 bytes whose RIFF size field holds the bytes of "data": the twelve
  bytes "RIFFdataWAVE", 1163280727 zero bytes, and a 24-byte fmt chunk (PCM, mono, 8000 Hz,
  16 bits) at the end. 1163280727 is the number that the bytes of "WAVE" spell as a
  little-endian field.
\<close>

definition riff_size_is_data :: buffer where
  "riff_size_is_data =
     [82, 73, 70, 70, 100, 97, 116, 97, 87, 65, 86, 69]
     @ replicate 1163280727 0
     @ [102, 109, 116, 32, 16, 0, 0, 0, 1, 0, 1, 0, 64, 31, 0, 0, 128, 62, 0, 0, 2, 0, 16, 0]"

text \<open>Truncation toward zero, the quantization that the specification names.\<close>

definition truncate_toward_zero :: "rat \<Rightarrow> int" where
  "truncate_toward_zero v = (if 0 \<le> v then \<lfloor>v\<rfloor> else \<lceil>v\<rceil>)"

text \<open>
  The numbers that \<open>round_to p emin\<close> can return: an integer of fewer than \<open>p\<close> bits times
  a power of two not below the smallest subnormal. And the exponent of the grid on which
  \<open>round_to\<close> puts a non-zero \<open>x\<close>.
\<close>

definition representable :: "nat \<Rightarrow> int \<Rightarrow> rat \<Rightarrow> bool" where
  "representable p emin a \<longleftrightarrow>
     (\<exists>m k. a = of_int m * 2 powi k \<and> \<bar>m\<bar> < 2 ^ p \<and> emin - int p + 1 \<le> k)"

definition grid_exp :: "int \<Rightarrow> rat \<Rightarrow> int" where
  "grid_exp emin x = max (ilog2 \<bar>x\<bar>) emin"

section \<open>Basic facts about the numbers\<close>

lemma to_double_not_NaN: "to_double x \<noteq> NaN"
  by (simp add: to_double_def Let_def)

lemma js_le_refl: "v \<noteq> NaN \<Longrightarrow> js_le v v"
  by (cases v) simp_all

lemma js_div_Fin_not_NaN: "y \<noteq> 0 \<Longrightarrow> js_div (Fin x) (Fin y) \<noteq> NaN"
  by (simp add: to_double_not_NaN)

section \<open>The boundary of the two halves of the envelope (claim C2)\<close>

text \<open>
  Claim C2 says that the sample whose time \<open>t = i / R\<close> equals \<open>half = (N / R) / 2\<close> is
  handled by the \<^verbatim>\<open>else\<close> (exhale) branch. The test of the script is
  \<^verbatim>\<open>t <= inhaleEnd\<close>, so that sample takes the first branch. At \<open>N = 2\<close>, \<open>R = 1\<close>,
  \<open>i = 1\<close> both times are 1, the test holds and the gain is that of the inhale branch.
\<close>

theorem boundary_sample_exhale_counterexample:
  "js_div (Fin 1) (Fin 1) = js_div (js_div (Fin 2) (Fin 1)) (Fin 2)
   \<and> inhale_test (js_div (Fin 1) (Fin 1)) (js_div (js_div (Fin 2) (Fin 1)) (Fin 2))
   \<and> envelope_amp chord_cos (js_div (js_div (Fin 2) (Fin 1)) (Fin 2)) (js_div (Fin 1) (Fin 1)) = Fin 1"
  by code_simp

text \<open>
  Claim C2 as amended: for every sample rate \<open>R > 0\<close>, the sample whose time \<open>t = i / R\<close>
  equals \<open>half = (N / R) / 2\<close> passes the test \<^verbatim>\<open>t <= inhaleEnd\<close> and gets the gain of the
  inhale branch, \<open>0.5 - 0.5 \<sqdot> cos (\<pi> \<sqdot> (t / half))\<close>.
\<close>

theorem boundary_sample_inhale:
  assumes "0 < r"
    and "t = js_div (Fin (of_nat i)) (Fin (of_nat r))"
    and "half = js_div (js_div (Fin (of_nat n)) (Fin (of_nat r))) (Fin 2)"
    and "t = half"
  shows "inhale_test t half \<and> envelope_amp mcos half t = inhale_amp mcos half t"
proof -
  from assms(1) have "t \<noteq> NaN"
    unfolding assms(2) by (intro js_div_Fin_not_NaN) simp
  with assms(4) have "inhale_test t half"
    by (simp add: inhale_test_def js_le_refl)
  then show ?thesis
    by (simp add: envelope_amp_def)
qed

theorem boundary_sample_inhale_witness:
  "(0 :: nat) < 1
   \<and> js_div (Fin (of_nat 1)) (Fin (of_nat 1)) = js_div (js_div (Fin (of_nat 2)) (Fin (of_nat 1))) (Fin 2)
   \<and> inhale_test (js_div (Fin (of_nat 1)) (Fin (of_nat 1)))
        (js_div (js_div (Fin (of_nat 2)) (Fin (of_nat 1))) (Fin 2))
   \<and> envelope_amp chord_cos (js_div (js_div (Fin (of_nat 2)) (Fin (of_nat 1))) (Fin 2))
        (js_div (Fin (of_nat 1)) (Fin (of_nat 1)))
      = inhale_amp chord_cos (js_div (js_div (Fin (of_nat 2)) (Fin (of_nat 1))) (Fin 2))
        (js_div (Fin (of_nat 1)) (Fin (of_nat 1)))"
proof -
  have h: "js_div (Fin (of_nat 1)) (Fin (of_nat 1))
           = js_div (js_div (Fin (of_nat 2)) (Fin (of_nat 1))) (Fin 2)"
    by code_simp
  have p: "(0 :: nat) < 1" by simp
  from boundary_sample_inhale [OF p refl refl h, of chord_cos] h p show ?thesis
    by blast
qed

section \<open>The quantization of a scaled sample (claim C3)\<close>

text \<open>
  Claim C3 says that the scaled value is quantized by truncation toward zero, also when
  it is negative. The script calls \<^verbatim>\<open>Math.floor\<close>: the sample -1 with gain 0.5 is scaled
  to -0.5 and written as -1, where truncation toward zero gives 0.
\<close>

theorem quantization_counterexample:
  "scaled_value (- 1) (Fin (1 / 2)) = Fin (- (1 / 2))
   \<and> scale_sample (- 1) (Fin (1 / 2)) = Fin (- 1)
   \<and> truncate_toward_zero (- (1 / 2)) = 0"
  by code_simp

text \<open>
  Claim C3 as amended: the output sample is the floor of the scaled value \<open>v\<close> (the greatest
  integer not above \<open>v\<close>), never a rounding to nearest; it is the truncation toward zero
  when \<open>v\<close> is non-negative or integral, and one less than the truncation when \<open>v\<close> is
  negative and not integral.
\<close>

theorem quantization_is_floor:
  assumes "scaled_value s g = Fin v"
  shows "scale_sample s g = Fin (of_int \<lfloor>v\<rfloor>)
         \<and> of_int \<lfloor>v\<rfloor> \<le> v \<and> v < of_int \<lfloor>v\<rfloor> + 1
         \<and> \<lfloor>v\<rfloor> = truncate_toward_zero v - (if v < 0 \<and> of_int \<lfloor>v\<rfloor> < v then 1 else 0)"
proof (intro conjI)
  show "v < of_int \<lfloor>v\<rfloor> + 1"
    by linarith
  show "of_int \<lfloor>v\<rfloor> \<le> v"
    by simp
  show "scale_sample s g = Fin (of_int \<lfloor>v\<rfloor>)"
    using assms by (simp add: scale_sample_def)
  show "\<lfloor>v\<rfloor> = truncate_toward_zero v - (if v < 0 \<and> of_int \<lfloor>v\<rfloor> < v then 1 else 0)"
  proof (cases "v < 0 \<and> of_int \<lfloor>v\<rfloor> < v")
    case True
    then have "v \<noteq> of_int \<lfloor>v\<rfloor>"
      by linarith
    with True show ?thesis
      by (simp add: truncate_toward_zero_def ceiling_altdef)
  next
    case False
    have "of_int \<lfloor>v\<rfloor> \<le> v"
      by simp
    with False have "0 \<le> v \<or> v = of_int \<lfloor>v\<rfloor>"
      by linarith
    with False show ?thesis
      by (auto simp: truncate_toward_zero_def ceiling_altdef)
  qed
qed

theorem quantization_is_floor_witness:
  "scaled_value (- 1) (Fin (1 / 2)) = Fin (- (1 / 2))
   \<and> scale_sample (- 1) (Fin (1 / 2)) = Fin (- 1)
   \<and> truncate_toward_zero (- (1 / 2)) - 1 = - 1"
proof -
  have h: "scaled_value (- 1) (Fin (1 / 2)) = Fin (- (1 / 2))"
    by code_simp
  have f: "\<lfloor>- (1 / 2) :: rat\<rfloor> = - 1"
    by (rule floor_unique) simp_all
  from quantization_is_floor [OF h] h show ?thesis
    unfolding f by simp
qed

section \<open>The rejections of the parser (claim C9)\<close>

lemma uint_of_char: "uint (of_char c :: byte) = of_char c"
proof -
  have "(of_char c :: byte) = word_of_int (of_char c)"
    by (simp add: of_int_of_char)
  then have "uint (of_char c :: byte) = of_char c mod 256"
    by (simp add: uint_word_of_int)
  then show ?thesis
    by (simp add: of_char_mod_256)
qed

lemma byte_char: "char_of (uint (w :: byte)) = c \<longleftrightarrow> w = of_char c"
proof
  assume "char_of (uint w) = c"
  then have "of_char c = uint w mod 256"
    using of_char_of [of "uint w"] by simp
  moreover have "uint w < 256"
    using uint_bounded [of w] by simp
  ultimately have "of_char c = uint w"
    by simp
  then have "word_of_int (of_char c) = w"
    by simp
  then show "w = of_char c"
    by (simp add: of_int_of_char)
next
  assume "w = of_char c"
  then show "char_of (uint w) = c"
    by (simp add: uint_of_char)
qed

lemma of_char_char_of_byte: "of_char (char_of (uint (w :: byte))) = w"
  using byte_char [of w "char_of (uint w)"] by simp

lemma char_of_of_char_byte: "char_of (uint (of_char c :: byte)) = c"
  using byte_char [of "of_char c" c] by simp

lemma map_byte_char:
  "map (\<lambda>b. char_of (uint (f b :: byte))) xs = str \<longleftrightarrow> map f xs = map of_char str"
proof
  assume "map (\<lambda>b. char_of (uint (f b))) xs = str"
  then have "(map of_char str :: byte list) = map (\<lambda>b. of_char (char_of (uint (f b)))) xs"
    by auto
  then show "map f xs = map of_char str"
    by (simp add: of_char_char_of_byte)
next
  assume "map f xs = map of_char str"
  moreover have "map (\<lambda>b. char_of (uint (f b))) xs = map (\<lambda>w. char_of (uint (w :: byte))) (map f xs)"
    by (simp add: comp_def)
  ultimately have "map (\<lambda>b. char_of (uint (f b))) xs = map (\<lambda>w. char_of (uint (w :: byte))) (map of_char str)"
    by simp
  also have "\<dots> = str"
    by (simp add: comp_def char_of_of_char_byte)
  finally show "map (\<lambda>b. char_of (uint (f b))) xs = str" .
qed

lemma toString_ascii_eq_iff:
  "toString_ascii buf s e = str \<longleftrightarrow> map (\<lambda>b. b AND 127) (slice buf s e) = bytes_of str"
  by (simp add: toString_ascii_def bytes_of_def map_byte_char)

lemma readUInt16LE_in_range:
  "0 \<le> off \<Longrightarrow> off + 2 \<le> int (length buf) \<Longrightarrow> \<exists>v. readUInt16LE buf off = Inr v"
  by (simp add: readUInt16LE_def)

lemma readUInt32LE_in_range:
  "0 \<le> off \<Longrightarrow> off + 4 \<le> int (length buf) \<Longrightarrow> \<exists>v. readUInt32LE buf off = Inr v"
  by (simp add: readUInt32LE_def)

text \<open>
  The checks of the parser in the order of the script, where the first failure wins. A
  buffer shorter than 12 bytes, or one in which a byte of 0-3 or 8-11 differs from the
  letter of "RIFF" or "WAVE" in its low seven bits, fails with \<open>NotRiffWave\<close>. A buffer
  that passes that check, holds the pattern "fmt " with 24 bytes from its first occurrence
  in range and declares the audio format 1 fails with \<open>UnsupportedChannels\<close> when it
  declares 2 channels, and with \<open>UnsupportedBitDepth\<close> when it declares 1 channel and 8
  bits per sample.
\<close>

lemma parseWav_rejections:
  fixes buf :: buffer
  defines "f \<equiv> indexOf buf (bytes_of ''fmt '')"
  shows "(length buf < 12
          \<or> map (\<lambda>b. b AND 127) (take 4 buf) \<noteq> bytes_of ''RIFF''
          \<or> map (\<lambda>b. b AND 127) (take 4 (drop 8 buf)) \<noteq> bytes_of ''WAVE''
          \<longrightarrow> parseWav buf = Inl NotRiffWave)
       \<and> (toString_ascii buf 0 4 = ''RIFF'' \<and> toString_ascii buf 8 12 = ''WAVE''
          \<and> 0 \<le> f \<and> f + 24 \<le> int (length buf)
          \<and> readUInt16LE buf (f + 8) = Inr 1 \<and> readUInt16LE buf (f + 10) = Inr 2
          \<longrightarrow> parseWav buf = Inl UnsupportedChannels)
       \<and> (toString_ascii buf 0 4 = ''RIFF'' \<and> toString_ascii buf 8 12 = ''WAVE''
          \<and> 0 \<le> f \<and> f + 24 \<le> int (length buf)
          \<and> readUInt16LE buf (f + 8) = Inr 1 \<and> readUInt16LE buf (f + 10) = Inr 1
          \<and> readUInt16LE buf (f + 22) = Inr 8
          \<longrightarrow> parseWav buf = Inl UnsupportedBitDepth)"
proof (intro conjI impI)
  assume a: "length buf < 12
          \<or> map (\<lambda>b. b AND 127) (take 4 buf) \<noteq> bytes_of ''RIFF''
          \<or> map (\<lambda>b. b AND 127) (take 4 (drop 8 buf)) \<noteq> bytes_of ''WAVE''"
  have "toString_ascii buf 0 4 \<noteq> ''RIFF'' \<or> toString_ascii buf 8 12 \<noteq> ''WAVE''"
  proof (rule ccontr)
    assume "\<not> ?thesis"
    then have r: "map (\<lambda>b. b AND 127) (take 4 buf) = bytes_of ''RIFF''"
      and w: "map (\<lambda>b. b AND 127) (take 4 (drop 8 buf)) = bytes_of ''WAVE''"
      by (simp_all add: toString_ascii_eq_iff slice_def)
    from w have "length (take 4 (drop 8 buf)) = 4"
      using length_map [of "\<lambda>b. b AND 127" "take 4 (drop 8 buf)"] by (simp add: bytes_of_def)
    then have "12 \<le> length buf"
      by simp
    with a r w show False
      by simp
  qed
  then show "parseWav buf = Inl NotRiffWave"
    by (auto simp: parseWav_def)
next
  assume h: "toString_ascii buf 0 4 = ''RIFF'' \<and> toString_ascii buf 8 12 = ''WAVE''
          \<and> 0 \<le> f \<and> f + 24 \<le> int (length buf)
          \<and> readUInt16LE buf (f + 8) = Inr 1 \<and> readUInt16LE buf (f + 10) = Inr 2"
  then obtain rate bits where "readUInt32LE buf (f + 12) = Inr rate"
    "readUInt16LE buf (f + 22) = Inr bits"
    using readUInt32LE_in_range [of "f + 12" buf] readUInt16LE_in_range [of "f + 22" buf]
    by auto
  with h show "parseWav buf = Inl UnsupportedChannels"
    by (simp add: parseWav_def and_then_def f_def Let_def)
next
  assume h: "toString_ascii buf 0 4 = ''RIFF'' \<and> toString_ascii buf 8 12 = ''WAVE''
          \<and> 0 \<le> f \<and> f + 24 \<le> int (length buf)
          \<and> readUInt16LE buf (f + 8) = Inr 1 \<and> readUInt16LE buf (f + 10) = Inr 1
          \<and> readUInt16LE buf (f + 22) = Inr 8"
  then obtain rate where "readUInt32LE buf (f + 12) = Inr rate"
    using readUInt32LE_in_range [of "f + 12" buf] by auto
  with h show "parseWav buf = Inl UnsupportedBitDepth"
    by (simp add: parseWav_def and_then_def f_def Let_def)
qed

lemma parseWav_rejections_witness:
  "map (\<lambda>b. b AND 127) (take 4 ((wav_header 1 1 16 4)[3 := 88] @ [1, 2, 3, 4])) \<noteq> bytes_of ''RIFF''
   \<and> parseWav ((wav_header 1 1 16 4)[3 := 88] @ [1, 2, 3, 4]) = Inl NotRiffWave
   \<and> readUInt16LE (wav_header 1 2 16 4 @ [1, 2, 3, 4]) 22 = Inr 2
   \<and> parseWav (wav_header 1 2 16 4 @ [1, 2, 3, 4]) = Inl UnsupportedChannels
   \<and> readUInt16LE (wav_header 1 1 8 4 @ [1, 2, 3, 4]) 34 = Inr 8
   \<and> parseWav (wav_header 1 1 8 4 @ [1, 2, 3, 4]) = Inl UnsupportedBitDepth"
proof -
  have a: "map (\<lambda>b. b AND 127) (take 4 ((wav_header 1 1 16 4)[3 := 88] @ [1, 2, 3, 4]))
             \<noteq> bytes_of ''RIFF''"
    by code_simp
  have b: "toString_ascii (wav_header 1 2 16 4 @ [1, 2, 3, 4]) 0 4 = ''RIFF''
      \<and> toString_ascii (wav_header 1 2 16 4 @ [1, 2, 3, 4]) 8 12 = ''WAVE''
      \<and> 0 \<le> indexOf (wav_header 1 2 16 4 @ [1, 2, 3, 4]) (bytes_of ''fmt '')
      \<and> indexOf (wav_header 1 2 16 4 @ [1, 2, 3, 4]) (bytes_of ''fmt '') + 24
          \<le> int (length (wav_header 1 2 16 4 @ [1, 2, 3, 4]))
      \<and> readUInt16LE (wav_header 1 2 16 4 @ [1, 2, 3, 4])
            (indexOf (wav_header 1 2 16 4 @ [1, 2, 3, 4]) (bytes_of ''fmt '') + 8) = Inr 1
      \<and> readUInt16LE (wav_header 1 2 16 4 @ [1, 2, 3, 4])
            (indexOf (wav_header 1 2 16 4 @ [1, 2, 3, 4]) (bytes_of ''fmt '') + 10) = Inr 2"
    by code_simp
  have c: "toString_ascii (wav_header 1 1 8 4 @ [1, 2, 3, 4]) 0 4 = ''RIFF''
      \<and> toString_ascii (wav_header 1 1 8 4 @ [1, 2, 3, 4]) 8 12 = ''WAVE''
      \<and> 0 \<le> indexOf (wav_header 1 1 8 4 @ [1, 2, 3, 4]) (bytes_of ''fmt '')
      \<and> indexOf (wav_header 1 1 8 4 @ [1, 2, 3, 4]) (bytes_of ''fmt '') + 24
          \<le> int (length (wav_header 1 1 8 4 @ [1, 2, 3, 4]))
      \<and> readUInt16LE (wav_header 1 1 8 4 @ [1, 2, 3, 4])
            (indexOf (wav_header 1 1 8 4 @ [1, 2, 3, 4]) (bytes_of ''fmt '') + 8) = Inr 1
      \<and> readUInt16LE (wav_header 1 1 8 4 @ [1, 2, 3, 4])
            (indexOf (wav_header 1 1 8 4 @ [1, 2, 3, 4]) (bytes_of ''fmt '') + 10) = Inr 1
      \<and> readUInt16LE (wav_header 1 1 8 4 @ [1, 2, 3, 4])
            (indexOf (wav_header 1 1 8 4 @ [1, 2, 3, 4]) (bytes_of ''fmt '') + 22) = Inr 8"
    by code_simp
  have d: "readUInt16LE (wav_header 1 2 16 4 @ [1, 2, 3, 4]) 22 = Inr 2"
    "readUInt16LE (wav_header 1 1 8 4 @ [1, 2, 3, 4]) 34 = Inr 8"
    by code_simp+
  have ra: "parseWav ((wav_header 1 1 16 4)[3 := 88] @ [1, 2, 3, 4]) = Inl NotRiffWave"
    using parseWav_rejections [of "(wav_header 1 1 16 4)[3 := 88] @ [1, 2, 3, 4]"] a by blast
  have rb: "parseWav (wav_header 1 2 16 4 @ [1, 2, 3, 4]) = Inl UnsupportedChannels"
    using parseWav_rejections [of "wav_header 1 2 16 4 @ [1, 2, 3, 4]"] b by blast
  have rc: "parseWav (wav_header 1 1 8 4 @ [1, 2, 3, 4]) = Inl UnsupportedBitDepth"
    using parseWav_rejections [of "wav_header 1 1 8 4 @ [1, 2, 3, 4]"] c by blast
  from a d ra rb rc show ?thesis
    by blast
qed

text \<open>
  Claim C9 says that every buffer whose bytes 0-3 are not "RIFF" fails with the
  \<open>NotRiffWave\<close> error. The script compares the \<^verbatim>\<open>'ascii'\<close> decoding of the bytes
  with the literal, and that decoding clears the highest bit of every byte: the buffer
  that starts with the bytes \<open>D2 49 46 46\<close>, whose first byte is not the letter R, is
  parsed as a WAV file of 8000 Hz with two samples.
\<close>

theorem parseWav_accepts_high_bit_magic:
  "(wav_header 1 1 16 4)[0 := 210] ! 0 \<noteq> of_char CHR ''R''
   \<and> parseWav ((wav_header 1 1 16 4)[0 := 210] @ [1, 2, 3, 4])
       = Inr \<lparr> sampleRate = 8000, samples = [1, 2, 3, 4], sampleCount = Fin 2,
               header = (wav_header 1 1 16 4)[0 := 210] \<rparr>"
  by code_simp

theorem parseWav_accepts_high_bit_magic_witness:
  "parseWav ((wav_header 1 1 16 4)[0 := 210] @ [1, 2, 3, 4]) \<noteq> Inl NotRiffWave"
  using parseWav_accepts_high_bit_magic by simp

section \<open>Searching a buffer\<close>

lemma indexOf_ge: "- 1 \<le> indexOf xs pat"
  by (induction xs) (auto simp: Let_def)

lemma indexOf_first:
  "indexOf xs pat = int k \<longleftrightarrow>
     k \<le> length xs \<and> prefix pat (drop k xs) \<and> (\<forall>k'<k. \<not> prefix pat (drop k' xs))"
proof (induction xs arbitrary: k)
  case Nil
  then show ?case by auto
next
  case (Cons b bs)
  show ?case
  proof (cases "prefix pat (b # bs)")
    case True
    then show ?thesis
      by (cases k) auto
  next
    case False
    show ?thesis
    proof (cases k)
      case 0
      with False show ?thesis
        using indexOf_ge [of bs pat] by (auto simp: Let_def)
    next
      case (Suc m)
      have "indexOf (b # bs) pat = int (Suc m) \<longleftrightarrow> indexOf bs pat = int m"
        using False indexOf_ge [of bs pat] by (auto simp: Let_def)
      also have "\<dots> \<longleftrightarrow> m \<le> length bs \<and> prefix pat (drop m bs)
                       \<and> (\<forall>k'<m. \<not> prefix pat (drop k' bs))"
        by (rule Cons.IH)
      also have "\<dots> \<longleftrightarrow> Suc m \<le> length (b # bs) \<and> prefix pat (drop (Suc m) (b # bs))
                       \<and> (\<forall>k'<Suc m. \<not> prefix pat (drop k' (b # bs)))"
        using False by (auto simp: less_Suc_eq_0_disj)
      finally show ?thesis
        using Suc by simp
    qed
  qed
qed

lemma indexOf_none:
  "indexOf xs pat < 0 \<longleftrightarrow> (\<forall>k\<le>length xs. \<not> prefix pat (drop k xs))"
proof (induction xs)
  case Nil
  then show ?case by auto
next
  case (Cons b bs)
  show ?case
  proof (cases "prefix pat (b # bs)")
    case True
    then show ?thesis by auto
  next
    case False
    have "indexOf (b # bs) pat < 0 \<longleftrightarrow> indexOf bs pat < 0"
      using False by (auto simp: Let_def)
    also have "\<dots> \<longleftrightarrow> (\<forall>k\<le>length bs. \<not> prefix pat (drop k bs))"
      by (rule Cons.IH)
    also have "\<dots> \<longleftrightarrow> (\<forall>k\<le>length (b # bs). \<not> prefix pat (drop k (b # bs)))"
    proof
      assume h: "\<forall>k\<le>length bs. \<not> prefix pat (drop k bs)"
      show "\<forall>k\<le>length (b # bs). \<not> prefix pat (drop k (b # bs))"
      proof (intro allI impI)
        fix k assume "k \<le> length (b # bs)"
        then show "\<not> prefix pat (drop k (b # bs))"
          using h False by (cases k) auto
      qed
    next
      assume h: "\<forall>k\<le>length (b # bs). \<not> prefix pat (drop k (b # bs))"
      show "\<forall>k\<le>length bs. \<not> prefix pat (drop k bs)"
      proof (intro allI impI)
        fix k assume "k \<le> length bs"
        then show "\<not> prefix pat (drop k bs)"
          using h [rule_format, of "Suc k"] by simp
      qed
    qed
    finally show ?thesis .
  qed
qed

lemma prefix_drop_nth:
  assumes "prefix pat (drop k xs)" and "i < length pat"
  shows "k + i < length xs \<and> xs ! (k + i) = pat ! i"
proof -
  from assms(1) obtain zs where z: "drop k xs = pat @ zs"
    by (auto simp: prefix_def)
  then have "length pat \<le> length (drop k xs)"
    by simp
  with assms(2) have l: "k + i < length xs"
    by simp
  have "xs ! (k + i) = drop k xs ! i"
    using l by simp
  also have "\<dots> = pat ! i"
    using z assms(2) by (simp add: nth_append)
  finally show ?thesis
    using l by simp
qed

lemma prefix_drop_iff:
  "prefix pat (drop k xs) \<longleftrightarrow>
     k + length pat \<le> length xs \<and> (\<forall>i<length pat. xs ! (k + i) = pat ! i) \<or> pat = []"
proof (cases "pat = []")
  case True
  then show ?thesis by simp
next
  case False
  show ?thesis
  proof
    assume p: "prefix pat (drop k xs)"
    from False have lp: "0 < length pat"
      by simp
    then have "k + (length pat - 1) < length xs"
      using prefix_drop_nth [OF p, of "length pat - 1"] by simp
    with lp have "k + length pat \<le> length xs"
      by linarith
    with p show "k + length pat \<le> length xs \<and> (\<forall>i<length pat. xs ! (k + i) = pat ! i) \<or> pat = []"
      using prefix_drop_nth [OF p] by blast
  next
    assume "k + length pat \<le> length xs \<and> (\<forall>i<length pat. xs ! (k + i) = pat ! i) \<or> pat = []"
    with False have l: "k + length pat \<le> length xs" and e: "\<forall>i<length pat. xs ! (k + i) = pat ! i"
      by auto
    have "take (length pat) (drop k xs) = pat"
    proof (rule nth_equalityI)
      show "length (take (length pat) (drop k xs)) = length pat"
        using l by simp
    next
      fix i assume "i < length (take (length pat) (drop k xs))"
      then show "take (length pat) (drop k xs) ! i = pat ! i"
        using l e by simp
    qed
    then show "prefix pat (drop k xs)"
      by (metis take_is_prefix)
  qed
qed

section \<open>Reading and writing fields of a buffer\<close>

lemma uint_byte_of_int: "uint (word_of_int k :: byte) = k mod 256"
  by (simp add: uint_word_of_int)

lemma le32_digits:
  fixes v :: int
  assumes "0 \<le> v" and "v \<le> 4294967295"
  shows "v mod 256 + 256 * (v div 256 mod 256) + 65536 * (v div 65536 mod 256)
         + 16777216 * (v div 16777216 mod 256) = v"
proof -
  have d2: "v div 65536 = v div 256 div 256"
    by (simp add: zdiv_zmult2_eq [symmetric])
  have d3: "v div 16777216 = v div 256 div 256 div 256"
    by (simp add: zdiv_zmult2_eq [symmetric])
  have e1: "v = 256 * (v div 256) + v mod 256"
    by simp
  have e2: "v div 256 = 256 * (v div 256 div 256) + v div 256 mod 256"
    by simp
  have e3: "v div 256 div 256 = 256 * (v div 256 div 256 div 256) + v div 256 div 256 mod 256"
    by simp
  have "0 \<le> v div 16777216" "v div 16777216 < 256"
    using assms by simp_all
  then have e4: "v div 256 div 256 div 256 mod 256 = v div 256 div 256 div 256"
    unfolding d3 by simp
  show ?thesis
    unfolding d2 d3 e4 using e1 e2 e3 by linarith
qed

section \<open>What a successful parse returns\<close>

lemma parseWav_Inr:
  assumes "parseWav buf = Inr p"
  obtains d dataSize where
    "indexOf buf (bytes_of ''data'') = int d"
    and "readUInt32LE buf (int d + 4) = Inr dataSize"
    and "d + 8 \<le> length buf"
    and "header p = take (d + 8) buf"
    and "samples p = take dataSize (drop (d + 8) buf)"
    and "sampleCount p = js_div (Fin (of_nat dataSize)) (Fin 2)"
    and "toString_ascii buf 0 4 = ''RIFF''" and "toString_ascii buf 8 12 = ''WAVE''"
proof -
  from assms have m: "toString_ascii buf 0 4 = ''RIFF''" "toString_ascii buf 8 12 = ''WAVE''"
    by (auto simp: parseWav_def split: if_splits)
  define dataIndex where "dataIndex = indexOf buf (bytes_of ''data'')"
  from assms m have nn: "0 \<le> dataIndex"
    by (auto simp: parseWav_def and_then_def Let_def dataIndex_def split: if_splits sum.splits)
  from assms m nn obtain dataSize where
    ds: "readUInt32LE buf (dataIndex + 4) = Inr dataSize"
    and p: "p = \<lparr> sampleRate = sampleRate p, samples = slice buf (nat (dataIndex + 8)) (nat (dataIndex + 8) + dataSize),
                  sampleCount = js_div (Fin (of_nat dataSize)) (Fin 2),
                  header = slice buf 0 (nat (dataIndex + 8)) \<rparr>"
    by (auto simp: parseWav_def and_then_def Let_def dataIndex_def split: if_splits sum.splits)
  from ds have r: "dataIndex + 8 \<le> int (length buf)"
    by (auto simp: readUInt32LE_def split: if_splits)
  define d where "d = nat dataIndex"
  with nn have d: "dataIndex = int d"
    by simp
  have nd: "nat (int d + 8) = d + 8"
    by simp
  show thesis
  proof (rule that [of d dataSize])
    show "indexOf buf (bytes_of ''data'') = int d"
      using d by (simp add: dataIndex_def)
    show "readUInt32LE buf (int d + 4) = Inr dataSize"
      using ds d by simp
    show "d + 8 \<le> length buf"
      using r d by simp
    show "header p = take (d + 8) buf"
      by (subst p) (simp add: slice_def d nd)
    show "samples p = take dataSize (drop (d + 8) buf)"
      by (subst p) (simp add: slice_def d nd)
    show "sampleCount p = js_div (Fin (of_nat dataSize)) (Fin 2)"
      by (subst p) simp
  qed (rule m)+
qed

section \<open>Writes, and the loop over the samples\<close>

lemma writeUInt32LE_Inr:
  assumes "writeUInt32LE buf v off = Inr buf'"
  shows "0 \<le> v" and "v \<le> 4294967295" and "0 \<le> off" and "off + 4 \<le> int (length buf)"
    and "buf' = buf[nat off := word_of_int v, nat off + 1 := word_of_int (v div 256),
                    nat off + 2 := word_of_int (v div 65536),
                    nat off + 3 := word_of_int (v div 16777216)]"
  using assms by (auto simp: writeUInt32LE_def split: if_splits)

lemma writeUInt32LE_length:
  "writeUInt32LE buf v off = Inr buf' \<Longrightarrow> length buf' = length buf"
  by (auto simp: writeUInt32LE_def split: if_splits)

lemma writeUInt32LE_other:
  assumes "writeUInt32LE buf v off = Inr buf'" and "k < nat off \<or> nat off + 4 \<le> k"
  shows "buf' ! k = buf ! k"
  using assms(2) unfolding writeUInt32LE_Inr(5) [OF assms(1)] by auto

lemma writeUInt32LE_read:
  assumes "writeUInt32LE buf v off = Inr buf'"
  shows "readUInt32LE buf' off = Inr (nat v)"
proof -
  note w = writeUInt32LE_Inr [OF assms]
  from w(3,4) have l: "nat off + 3 < length buf"
    by linarith
  have b: "buf' ! nat off = word_of_int v" "buf' ! (nat off + 1) = word_of_int (v div 256)"
    "buf' ! (nat off + 2) = word_of_int (v div 65536)"
    "buf' ! (nat off + 3) = word_of_int (v div 16777216)"
    unfolding w(5) using l by simp_all
  have "length buf' = length buf"
    by (rule writeUInt32LE_length [OF assms])
  with w(3,4) b show ?thesis
    by (simp add: readUInt32LE_def uint_byte_of_int le32_digits [OF w(1,2)])
qed

lemma readUInt32LE_frame:
  assumes "length a = length b" and "\<And>i. i < 4 \<Longrightarrow> a ! (nat off + i) = b ! (nat off + i)"
  shows "readUInt32LE a off = readUInt32LE b off"
  using assms(1) assms(2) [of 0] assms(2) [of 1] assms(2) [of 2] assms(2) [of 3]
  by (simp add: readUInt32LE_def)

lemma writeInt16LE_length:
  "writeInt16LE buf v off = Inr buf' \<Longrightarrow> length buf' = length buf"
  by (auto simp: writeInt16LE_def Let_def split: if_splits)

lemma apply_loop_length:
  "apply_loop pcm envelope i out = Inr out' \<Longrightarrow> length out' = length out"
proof (induction pcm envelope i out rule: apply_loop.induct)
  case (1 pcm envelope i out)
  show ?case
  proof (cases "i < length envelope")
    case False
    with "1.prems" show ?thesis
      by (simp add: apply_loop.simps [of pcm envelope i out])
  next
    case True
    from "1.prems" True have "and_then (readInt16LE pcm (int i * 2)) (\<lambda>sample.
        and_then (writeInt16LE out (scale_sample sample (envelope ! i)) (int i * 2)) (\<lambda>out'.
          apply_loop pcm envelope (Suc i) out')) = Inr out'"
      by (simp add: apply_loop.simps [of pcm envelope i out])
    then obtain sample w where
      r: "readInt16LE pcm (int i * 2) = Inr sample"
      and wr: "writeInt16LE out (scale_sample sample (envelope ! i)) (int i * 2) = Inr w"
      and rest: "apply_loop pcm envelope (Suc i) w = Inr out'"
      by (auto simp: and_then_def split: sum.splits)
    from "1.IH" [OF True rest] writeInt16LE_length [OF wr] show ?thesis
      by simp
  qed
qed

lemma applyEnvelopeToSamples_length:
  "applyEnvelopeToSamples p envelope = Inr out \<Longrightarrow> length out = length (samples p)"
  using apply_loop_length [of "samples p" envelope 0 "replicate (length (samples p)) 0" out]
  by (simp add: applyEnvelopeToSamples_def)

section \<open>The stages of \<open>processFile\<close>\<close>

lemma indexOf_nonneg_iff:
  "0 \<le> indexOf xs pat \<longleftrightarrow> (\<exists>k\<le>length xs. prefix pat (drop k xs))"
  using indexOf_none [of xs pat] by auto

lemma indexOf_frame:
  assumes "indexOf xs pat = int j" and "length ys = length xs"
    and "\<And>k. k < j + length pat \<Longrightarrow> ys ! k = xs ! k"
  shows "indexOf ys pat = int j"
proof -
  from assms(1) have j: "j \<le> length xs" "prefix pat (drop j xs)"
    "\<And>k'. k' < j \<Longrightarrow> \<not> prefix pat (drop k' xs)"
    by (simp_all add: indexOf_first)
  have same: "prefix pat (drop k ys) \<longleftrightarrow> prefix pat (drop k xs)" if "k \<le> j" for k
    unfolding prefix_drop_iff using assms(2,3) that by auto
  show ?thesis
    unfolding indexOf_first using j same assms(2) by auto
qed

lemma processFile_Inr:
  assumes "processFile mcos buf = Inr out"
  obtains p envelope processed patched where
    "parseWav buf = Inr p"
    and "breathingEnvelope mcos (sampleCount p) (Fin (of_nat (sampleRate p))) = Inr envelope"
    and "applyEnvelopeToSamples p envelope = Inr processed"
    and "writeUInt32LE (header p @ processed) (int (length (header p @ processed)) - 8) 4
         = Inr patched"
    and "writeUInt32LE patched (int (length processed)) (indexOf patched (bytes_of ''data'') + 4)
         = Inr out"
  using assms by (auto simp: processFile_def and_then_def Let_def split: sum.splits)

lemma bytes_of_data: "bytes_of ''data'' = [100, 97, 116, 97]"
  by (simp add: bytes_of_def)

lemma magic_bytes:
  assumes "toString_ascii buf 0 4 = ''RIFF''" and "toString_ascii buf 8 12 = ''WAVE''"
  shows "12 \<le> length buf"
    and "buf ! 0 AND 127 = 82" and "buf ! 1 AND 127 = 73"
    and "buf ! 2 AND 127 = 70" and "buf ! 3 AND 127 = 70"
    and "buf ! 8 AND 127 = 87" and "buf ! 9 AND 127 = 65"
    and "buf ! 10 AND 127 = 86" and "buf ! 11 AND 127 = 69"
proof -
  from assms have r: "map (\<lambda>b. b AND 127) (take 4 buf) = [82, 73, 70, 70]"
    and w: "map (\<lambda>b. b AND 127) (take 4 (drop 8 buf)) = [87, 65, 86, 69]"
    by (simp_all add: toString_ascii_eq_iff slice_def bytes_of_def)
  from w have "length (map (\<lambda>b. b AND 127) (take 4 (drop 8 buf))) = 4"
    by simp
  then show l: "12 \<le> length buf"
    by simp
  have "map (\<lambda>b. b AND 127) (take 4 buf) ! i = buf ! i AND 127" if "i < 4" for i
    using that l by simp
  from this [of 0] this [of 1] this [of 2] this [of 3]
  show "buf ! 0 AND 127 = 82" "buf ! 1 AND 127 = 73" "buf ! 2 AND 127 = 70" "buf ! 3 AND 127 = 70"
    unfolding r by simp_all
  have "map (\<lambda>b. b AND 127) (take 4 (drop 8 buf)) ! i = buf ! (8 + i) AND 127" if "i < 4" for i
    using that l by simp
  from this [of 0] this [of 1] this [of 2] this [of 3]
  show "buf ! 8 AND 127 = 87" "buf ! 9 AND 127 = 65" "buf ! 10 AND 127 = 86" "buf ! 11 AND 127 = 69"
    unfolding w by simp_all
qed

lemma data_pattern_offset:
  assumes "toString_ascii buf 0 4 = ''RIFF''" and "toString_ascii buf 8 12 = ''WAVE''"
    and "prefix (bytes_of ''data'') (drop k xs)"
    and "\<And>i. i < 4 \<Longrightarrow> xs ! i = buf ! i"
    and "\<And>i. 8 \<le> i \<Longrightarrow> i < 12 \<Longrightarrow> xs ! i = buf ! i"
  shows "k = 4 \<or> 12 \<le> k"
proof (rule ccontr)
  assume "\<not> (k = 4 \<or> 12 \<le> k)"
  then have "k < 12" "k \<noteq> 4"
    by simp_all
  then have k: "k \<in> {0, 1, 2, 3, 5, 6, 7, 8, 9, 10, 11}"
    by (simp only: insert_iff empty_iff) arith
  note m = magic_bytes [OF assms(1,2)]
  have p: "xs ! (k + i) = [100, 97, 116, 97] ! i" if "i < 4" for i
    using prefix_drop_nth [OF assms(3), of i] that by (simp add: bytes_of_data)
  have x: "xs ! 0 = buf ! 0" "xs ! 1 = buf ! 1" "xs ! 2 = buf ! 2" "xs ! 3 = buf ! 3"
    "xs ! 8 = buf ! 8" "xs ! 9 = buf ! 9" "xs ! 10 = buf ! 10" "xs ! 11 = buf ! 11"
    using assms(4,5) by simp_all
  from k show False
  proof (elim insertE emptyE)
    assume "k = 0" with p [of 0] x m show False by auto
  next
    assume "k = 1" with p [of 0] x m show False by auto
  next
    assume "k = 2" with p [of 0] x m show False by auto
  next
    assume "k = 3" with p [of 0] x m show False by auto
  next
    assume "k = 5" with p [of 3] x m show False by auto
  next
    assume "k = 6" with p [of 2] x m show False by auto
  next
    assume "k = 7" with p [of 1] x m show False by auto
  next
    assume "k = 8" with p [of 0] x m show False by auto
  next
    assume "k = 9" with p [of 0] x m show False by auto
  next
    assume "k = 10" with p [of 0] x m show False by auto
  next
    assume "k = 11" with p [of 0] x m show False by auto
  qed
qed

text \<open>The state of \<open>processFile\<close> after its first write, for an input whose first "data" is not at 4.\<close>

lemma processFile_stages:
  assumes pf: "processFile mcos buf = Inr out"
    and d4: "indexOf buf (bytes_of ''data'') \<noteq> 4"
  obtains p processed patched d j where
    "parseWav buf = Inr p"
    and "indexOf buf (bytes_of ''data'') = int d" and "12 \<le> d" and "d + 8 \<le> length buf"
    and "header p = take (d + 8) buf"
    and "length processed = length (samples p)"
    and "writeUInt32LE (header p @ processed) (int (length (header p @ processed)) - 8) 4
         = Inr patched"
    and "indexOf patched (bytes_of ''data'') = int j" and "j = 4 \<or> 12 \<le> j" and "j \<le> d"
    and "\<forall>k<d + 8. k < 4 \<or> 8 \<le> k \<longrightarrow> patched ! k = buf ! k"
    and "writeUInt32LE patched (int (length processed)) (int j + 4) = Inr out"
proof -
  from pf obtain p envelope processed patched where
    pw: "parseWav buf = Inr p"
    and ap: "applyEnvelopeToSamples p envelope = Inr processed"
    and w1: "writeUInt32LE (header p @ processed) (int (length (header p @ processed)) - 8) 4
             = Inr patched"
    and w2: "writeUInt32LE patched (int (length processed))
               (indexOf patched (bytes_of ''data'') + 4) = Inr out"
    by (rule processFile_Inr)
  from pw obtain d dataSize where
    di: "indexOf buf (bytes_of ''data'') = int d"
    and dl: "d + 8 \<le> length buf"
    and hd: "header p = take (d + 8) buf"
    and mg: "toString_ascii buf 0 4 = ''RIFF''" "toString_ascii buf 8 12 = ''WAVE''"
    by (rule parseWav_Inr)
  from di have dp: "prefix (bytes_of ''data'') (drop d buf)"
    and dmin: "\<And>k. k < d \<Longrightarrow> \<not> prefix (bytes_of ''data'') (drop k buf)"
    by (simp_all add: indexOf_first)
  from data_pattern_offset [OF mg dp] d4 di have d12: "12 \<le> d"
    by simp
  have lh: "length (header p) = d + 8"
    using hd dl by simp
  have lp: "length patched = length (header p @ processed)"
    by (rule writeUInt32LE_length [OF w1])
  have pb: "patched ! k = buf ! k" if "k < d + 8" "k < 4 \<or> 8 \<le> k" for k
  proof -
    have "patched ! k = (header p @ processed) ! k"
      using that(2) by (intro writeUInt32LE_other [OF w1]) auto
    also have "\<dots> = buf ! k"
      using that(1) lh hd by (simp add: nth_append)
    finally show ?thesis .
  qed
  have dpp: "prefix (bytes_of ''data'') (drop d patched)"
    unfolding prefix_drop_iff
  proof (intro disjI1 conjI allI impI)
    show "d + length (bytes_of ''data'') \<le> length patched"
      using lp lh by (simp add: bytes_of_data)
  next
    fix i assume "i < length (bytes_of ''data'')"
    then have i: "i < 4"
      by (simp add: bytes_of_data)
    with d12 have "patched ! (d + i) = buf ! (d + i)"
      by (intro pb) auto
    also have "\<dots> = bytes_of ''data'' ! i"
      using prefix_drop_nth [OF dp, of i] i by (simp add: bytes_of_data)
    finally show "patched ! (d + i) = bytes_of ''data'' ! i" .
  qed
  have "d \<le> length patched"
    using lp lh by simp
  with dpp have "0 \<le> indexOf patched (bytes_of ''data'')"
    unfolding indexOf_nonneg_iff by blast
  then obtain j where ji: "indexOf patched (bytes_of ''data'') = int j"
    using nonneg_int_cases by blast
  then have jp: "prefix (bytes_of ''data'') (drop j patched)"
    and jmin: "\<And>k. k < j \<Longrightarrow> \<not> prefix (bytes_of ''data'') (drop k patched)"
    by (simp_all add: indexOf_first)
  from jmin [of d] dpp have jd: "j \<le> d"
    by (cases "d < j") auto
  have j4: "j = 4 \<or> 12 \<le> j"
  proof (rule data_pattern_offset [OF mg jp])
    fix i :: nat assume "i < 4"
    with d12 show "patched ! i = buf ! i"
      by (intro pb) auto
  next
    fix i :: nat assume "8 \<le> i" "i < 12"
    with d12 show "patched ! i = buf ! i"
      by (intro pb) auto
  qed
  have pb': "\<forall>k<d + 8. k < 4 \<or> 8 \<le> k \<longrightarrow> patched ! k = buf ! k"
    using pb by blast
  show thesis
    using pw di d12 dl hd applyEnvelopeToSamples_length [OF ap] w1 ji j4 jd pb' w2
    by (intro that [of p d processed patched j]) (simp_all add: ji)
qed

lemma readUInt32LE_data:
  assumes "prefix (bytes_of ''data'') (drop k xs)"
  shows "readUInt32LE xs (int k) = Inr 1635017060"
proof -
  have p: "k + i < length xs \<and> xs ! (k + i) = [100, 97, 116, 97] ! i" if "i < 4" for i
    using prefix_drop_nth [OF assms, of i] that by (simp add: bytes_of_data)
  from p [of 0] p [of 1] p [of 2] p [of 3] show ?thesis
    by (simp add: readUInt32LE_def)
qed

section \<open>A small file, stage by stage\<close>

lemma fixture_parse:
  "parseWav (wav_header 1 1 16 4 @ [255, 127, 255, 127])
   = Inr \<lparr> sampleRate = 8000, samples = [255, 127, 255, 127], sampleCount = Fin 2,
           header = wav_header 1 1 16 4 \<rparr>"
  by code_simp

lemma fixture_envelope:
  "breathingEnvelope chord_cos (Fin 2) (Fin 8000) = Inr [Fin 0, Fin 1]"
  by code_simp

lemma fixture_apply:
  "applyEnvelopeToSamples \<lparr> sampleRate = 8000, samples = [255, 127, 255, 127],
      sampleCount = Fin 2, header = wav_header 1 1 16 4 \<rparr> [Fin 0, Fin 1]
   = Inr [0, 0, 255, 127]"
  by code_simp

lemma fixture_serialize:
  "and_then (writeUInt32LE (wav_header 1 1 16 4 @ [0, 0, 255, 127])
       (int (length (wav_header 1 1 16 4 @ [0, 0, 255, 127])) - 8) 4)
     (\<lambda>patched. writeUInt32LE patched (int (length [0, 0, 255, 127 :: byte]))
        (indexOf patched (bytes_of ''data'') + 4))
   = Inr ([82, 73, 70, 70, 40, 0, 0, 0] @ drop 8 (wav_header 1 1 16 4) @ [0, 0, 255, 127])"
  by code_simp

lemma fixture_processFile:
  "processFile chord_cos (wav_header 1 1 16 4 @ [255, 127, 255, 127])
   = Inr ([82, 73, 70, 70, 40, 0, 0, 0] @ drop 8 (wav_header 1 1 16 4) @ [0, 0, 255, 127])"
  unfolding processFile_def fixture_parse
  by (simp add: and_then_def fixture_envelope fixture_apply Let_def
      fixture_serialize [unfolded and_then_def, simplified])

section \<open>The output where the second search finds "data"\<close>

text \<open>
  For every successfully processed input whose first "data" pattern is not at offset 4
  (where it would be the RIFF size field itself), the field of the output at offset 4
  equals the output length minus 8, the output contains the pattern "data", and the field
  4 bytes after its first occurrence equals the length of the new payload.
\<close>

lemma size_fields_after_serialization:
  assumes "processFile mcos buf = Inr out"
    and "parseWav buf = Inr p"
    and "indexOf buf (bytes_of ''data'') \<noteq> 4"
  shows "readUInt32LE out 4 = Inr (length out - 8)
         \<and> 0 \<le> indexOf out (bytes_of ''data'')
         \<and> readUInt32LE out (indexOf out (bytes_of ''data'') + 4)
             = Inr (length out - length (header p))"
proof -
  from assms(1,3) obtain p' processed patched d j where
    pw: "parseWav buf = Inr p'"
    and w1: "writeUInt32LE (header p' @ processed) (int (length (header p' @ processed)) - 8) 4
             = Inr patched"
    and ji: "indexOf patched (bytes_of ''data'') = int j" and jd: "j = 4 \<or> 12 \<le> j"
    and w2: "writeUInt32LE patched (int (length processed)) (int j + 4) = Inr out"
    by (rule processFile_stages)
  from jd have j4: "4 \<le> j"
    by auto
  from pw assms(2) have pp: "p' = p"
    by simp
  have l1: "length patched = length (header p @ processed)"
    using writeUInt32LE_length [OF w1] pp by simp
  have l2: "length out = length patched"
    by (rule writeUInt32LE_length [OF w2])
  have "readUInt32LE patched 4 = Inr (nat (int (length (header p' @ processed)) - 8))"
    by (rule writeUInt32LE_read [OF w1])
  moreover have "readUInt32LE out 4 = readUInt32LE patched 4"
  proof (rule readUInt32LE_frame [OF l2])
    fix i :: nat assume "i < 4"
    with j4 show "out ! (nat 4 + i) = patched ! (nat 4 + i)"
      by (intro writeUInt32LE_other [OF w2]) auto
  qed
  ultimately have f1: "readUInt32LE out 4 = Inr (length out - 8)"
    using l1 l2 pp by (simp add: nat_diff_distrib)
  have jo: "indexOf out (bytes_of ''data'') = int j"
  proof (rule indexOf_frame [OF ji l2])
    fix k assume "k < j + length (bytes_of ''data'')"
    then have "k < nat (int j + 4)"
      by (simp add: bytes_of_data nat_add_distrib)
    then show "out ! k = patched ! k"
      by (intro writeUInt32LE_other [OF w2]) simp
  qed
  have "readUInt32LE out (int j + 4) = Inr (nat (int (length processed)))"
    by (rule writeUInt32LE_read [OF w2])
  then have f2: "readUInt32LE out (indexOf out (bytes_of ''data'') + 4)
                 = Inr (length out - length (header p))"
    using jo l1 l2 by simp
  from f1 f2 jo show ?thesis
    by simp
qed

lemma size_fields_after_serialization_witness:
  "processFile chord_cos (wav_header 1 1 16 4 @ [255, 127, 255, 127])
     = Inr ([82, 73, 70, 70, 40, 0, 0, 0] @ drop 8 (wav_header 1 1 16 4) @ [0, 0, 255, 127])
   \<and> indexOf (wav_header 1 1 16 4 @ [255, 127, 255, 127]) (bytes_of ''data'') \<noteq> 4
   \<and> readUInt32LE ([82, 73, 70, 70, 40, 0, 0, 0] @ drop 8 (wav_header 1 1 16 4) @ [0, 0, 255, 127]) 4
     = Inr 40
   \<and> readUInt32LE ([82, 73, 70, 70, 40, 0, 0, 0] @ drop 8 (wav_header 1 1 16 4) @ [0, 0, 255, 127])
       (indexOf ([82, 73, 70, 70, 40, 0, 0, 0] @ drop 8 (wav_header 1 1 16 4) @ [0, 0, 255, 127])
          (bytes_of ''data'') + 4)
     = Inr 4"
proof -
  have h: "indexOf (wav_header 1 1 16 4 @ [255, 127, 255, 127]) (bytes_of ''data'') \<noteq> 4"
    by code_simp
  from size_fields_after_serialization [OF fixture_processFile fixture_parse h]
    fixture_processFile h
  show ?thesis
    by (simp add: wav_header_def)
qed

text \<open>
  For every successfully processed input whose first "data" pattern is at an offset \<open>d\<close>
  other than 4 and whose output is not 1635017068 bytes long (the length whose RIFF size
  field spells "data"), the header kept from the input is its first \<open>d + 8\<close> bytes, the
  output is as long as that header and the input payload together, and every byte of the
  output in front of the payload equals the input byte at the same offset, except at the
  offsets 4-7 and \<open>d + 4\<close> to \<open>d + 7\<close>.
\<close>

lemma header_preserved:
  assumes "processFile mcos buf = Inr out"
    and "parseWav buf = Inr p"
    and "indexOf buf (bytes_of ''data'') = int d"
    and "d \<noteq> 4"
    and "length out \<noteq> 1635017068"
  shows "length (header p) = d + 8
         \<and> length out = length (header p) + length (samples p)
         \<and> (\<forall>k<d + 8. k \<notin> {4..<8} \<longrightarrow> k \<notin> {d + 4..<d + 8} \<longrightarrow> out ! k = buf ! k)"
proof -
  from assms(3,4) have "indexOf buf (bytes_of ''data'') \<noteq> 4"
    by simp
  with assms(1) obtain p' processed patched d' j where
    pw: "parseWav buf = Inr p'"
    and di: "indexOf buf (bytes_of ''data'') = int d'" and dl: "d' + 8 \<le> length buf"
    and hd: "header p' = take (d' + 8) buf"
    and lpr: "length processed = length (samples p')"
    and w1: "writeUInt32LE (header p' @ processed) (int (length (header p' @ processed)) - 8) 4
             = Inr patched"
    and ji: "indexOf patched (bytes_of ''data'') = int j" and j4: "j = 4 \<or> 12 \<le> j"
    and jd: "j \<le> d'"
    and pb': "\<forall>k<d' + 8. k < 4 \<or> 8 \<le> k \<longrightarrow> patched ! k = buf ! k"
    and w2: "writeUInt32LE patched (int (length processed)) (int j + 4) = Inr out"
    by (rule processFile_stages)
  from pb' have pb: "\<And>k. k < d' + 8 \<Longrightarrow> k < 4 \<or> 8 \<le> k \<Longrightarrow> patched ! k = buf ! k"
    by blast
  from pw assms(2) have pp: "p' = p"
    by simp
  from di assms(3) have dd: "d' = d"
    by simp
  have lh: "length (header p) = d + 8"
    using hd dl pp dd by simp
  have l1: "length patched = length (header p @ processed)"
    using writeUInt32LE_length [OF w1] pp by simp
  have l2: "length out = length patched"
    by (rule writeUInt32LE_length [OF w2])
  from ji have jp: "prefix (bytes_of ''data'') (drop j patched)"
    by (simp add: indexOf_first)
  from di have dmin: "\<And>k. k < d' \<Longrightarrow> \<not> prefix (bytes_of ''data'') (drop k buf)"
    by (simp add: indexOf_first)
  have "j = d"
  proof (rule ccontr)
    assume "j \<noteq> d"
    with jd dd have jl: "j < d"
      by simp
    from j4 show False
    proof
      assume "j = 4"
      with jp have "readUInt32LE patched 4 = Inr 1635017060"
        using readUInt32LE_data [of 4 patched] by simp
      moreover have "readUInt32LE patched 4 = Inr (nat (int (length (header p' @ processed)) - 8))"
        by (rule writeUInt32LE_read [OF w1])
      ultimately have "length out = 1635017068"
        using l1 l2 pp by simp
      with assms(5) show False
        by simp
    next
      assume j12: "12 \<le> j"
      have "prefix (bytes_of ''data'') (drop j buf)"
        unfolding prefix_drop_iff
      proof (intro disjI1 conjI allI impI)
        show "j + length (bytes_of ''data'') \<le> length buf"
          using jl dl dd by (simp add: bytes_of_data)
      next
        fix i assume "i < length (bytes_of ''data'')"
        then have i: "i < 4"
          by (simp add: bytes_of_data)
        with j12 jl dd have "patched ! (j + i) = buf ! (j + i)"
          by (intro pb) auto
        then show "buf ! (j + i) = bytes_of ''data'' ! i"
          using prefix_drop_nth [OF jp, of i] i by (simp add: bytes_of_data)
      qed
      with dmin [of j] jl dd show False
        by simp
    qed
  qed
  have frame: "out ! k = buf ! k" if "k < d + 8" "k \<notin> {4..<8}" "k \<notin> {d + 4..<d + 8}" for k
  proof -
    have "out ! k = patched ! k"
      using that \<open>j = d\<close> by (intro writeUInt32LE_other [OF w2]) (auto simp: nat_add_distrib)
    also have "\<dots> = buf ! k"
      using that dd by (intro pb) auto
    finally show ?thesis .
  qed
  from lh l1 l2 lpr pp frame show ?thesis
    by simp
qed

lemma header_preserved_witness:
  "processFile chord_cos (wav_header 1 1 16 4 @ [255, 127, 255, 127])
     = Inr ([82, 73, 70, 70, 40, 0, 0, 0] @ drop 8 (wav_header 1 1 16 4) @ [0, 0, 255, 127])
   \<and> indexOf (wav_header 1 1 16 4 @ [255, 127, 255, 127]) (bytes_of ''data'') = int 36
   \<and> length ([82, 73, 70, 70, 40, 0, 0, 0] @ drop 8 (wav_header 1 1 16 4) @ [0, 0, 255, 127]) = 48
   \<and> ([82, 73, 70, 70, 40, 0, 0, 0] @ drop 8 (wav_header 1 1 16 4) @ [0, 0, 255, 127]) ! 12
     = (wav_header 1 1 16 4 @ [255, 127, 255, 127]) ! 12
   \<and> ([82, 73, 70, 70, 40, 0, 0, 0] @ drop 8 (wav_header 1 1 16 4) @ [0, 0, 255, 127]) ! 39
     = (wav_header 1 1 16 4 @ [255, 127, 255, 127]) ! 39"
proof -
  have h: "indexOf (wav_header 1 1 16 4 @ [255, 127, 255, 127]) (bytes_of ''data'') = int 36"
    by code_simp
  have n: "(36 :: nat) \<noteq> 4"
    by simp
  have l: "length ([82, 73, 70, 70, 40, 0, 0, 0] @ drop 8 (wav_header 1 1 16 4) @ [0, 0, 255, 127 :: byte])
           \<noteq> 1635017068"
    by (simp add: wav_header_def)
  note t = header_preserved [OF fixture_processFile fixture_parse h n l]
  from t have f: "\<forall>k<36 + 8. k \<notin> {4..<8} \<longrightarrow> k \<notin> {36 + 4..<36 + 8} \<longrightarrow>
      ([82, 73, 70, 70, 40, 0, 0, 0] @ drop 8 (wav_header 1 1 16 4) @ [0, 0, 255, 127]) ! k
      = (wav_header 1 1 16 4 @ [255, 127, 255, 127]) ! k"
    by blast
  from t have "length ([82, 73, 70, 70, 40, 0, 0, 0] @ drop 8 (wav_header 1 1 16 4) @ [0, 0, 255, 127 :: byte]) = 48"
    by simp
  with f [rule_format, of 12] f [rule_format, of 39] fixture_processFile h show ?thesis
    by simp
qed

section \<open>A file whose RIFF size field reads "data"\<close>

lemma float32_store_length [simp]: "length (float32_store envelope i amp) = length envelope"
  by (simp add: float32_store_def)

lemma envelope_loop_length:
  "length (envelope_loop mcos totalSamples rate inhaleEnd i envelope) = length envelope"
proof (induction mcos totalSamples rate inhaleEnd i envelope rule: envelope_loop.induct)
  case (1 mcos totalSamples rate inhaleEnd i envelope)
  show ?case
  proof (cases "of_nat i < totalSamples")
    case True
    with "1.IH" [OF True refl refl] show ?thesis
      by (simp add: envelope_loop.simps [of mcos totalSamples rate inhaleEnd i envelope] Let_def)
  next
    case False
    then show ?thesis
      by (simp add: envelope_loop.simps [of mcos totalSamples rate inhaleEnd i envelope])
  qed
qed

lemma breathingEnvelope_Fin:
  assumes "- 1 < n"
  obtains envelope where "breathingEnvelope mcos (Fin n) rate = Inr envelope"
    and "length envelope = nat \<lfloor>n\<rfloor>"
  using assms by (simp add: breathingEnvelope_def Let_def envelope_loop_length)

lemma to_double_0 [simp]: "to_double 0 = Fin 0"
  by (simp add: to_double_def fl64_def round_to_def max_double_def)

lemma scale_sample_0: "scale_sample 0 g = Fin 0 \<or> scale_sample 0 g = NaN"
  by (cases g) (simp_all add: scale_sample_def scaled_value_def)

lemma readInt16LE_zeros:
  "2 * i + 2 \<le> n \<Longrightarrow> readInt16LE (replicate n 0) (int i * 2) = Inr 0"
  by (simp add: readInt16LE_def)

lemma writeInt16LE_zeros:
  assumes "2 * i + 2 \<le> n" and "v = Fin 0 \<or> v = NaN"
  shows "writeInt16LE (replicate n 0) v (int i * 2) = Inr (replicate n 0)"
proof -
  have "(replicate n (0 :: byte))[k := 0] = replicate n 0" for k
    by (induction n arbitrary: k) (simp_all split: nat.split)
  with assms show ?thesis
    by (auto simp: writeInt16LE_def)
qed

lemma apply_loop_zeros:
  assumes "2 * length envelope \<le> n"
  shows "apply_loop (replicate n 0) envelope i (replicate n 0) = Inr (replicate n 0)"
  using assms
proof (induction "length envelope - i" arbitrary: i)
  case 0
  then show ?case
    by (simp add: apply_loop.simps [of _ envelope i])
next
  case (Suc m)
  then have i: "i < length envelope" and m: "m = length envelope - Suc i"
    by simp_all
  with Suc.prems have r: "2 * i + 2 \<le> n"
    by simp
  from Suc.hyps(1) [OF m Suc.prems]
  show ?case
    using i readInt16LE_zeros [OF r]
      writeInt16LE_zeros [OF r scale_sample_0 [of "envelope ! i"]]
    by (simp add: apply_loop.simps [of _ envelope i] and_then_def)
qed

lemma indexOf_absent:
  assumes "pat \<noteq> []" and "hd pat \<notin> set xs"
  shows "indexOf xs pat = - 1"
proof -
  have "\<not> prefix pat (drop k xs)" if "k \<le> length xs" for k
  proof
    assume p: "prefix pat (drop k xs)"
    from assms(1) have "0 < length pat"
      by simp
    from prefix_drop_nth [OF p this] have "k < length xs" "xs ! k = hd pat"
      using assms(1) by (simp_all add: hd_conv_nth)
    with assms(2) show False
      by (metis nth_mem)
  qed
  then have "indexOf xs pat < 0"
    unfolding indexOf_none by blast
  with indexOf_ge [of xs pat] show ?thesis
    by simp
qed

lemma indexOf_skip:
  assumes "pat \<noteq> []" and "hd pat \<notin> set xs" and "indexOf ys pat = int j"
  shows "indexOf (xs @ ys) pat = int (length xs + j)"
  using assms(2)
proof (induction xs)
  case Nil
  with assms(3) show ?case by simp
next
  case (Cons b bs)
  from assms(1) Cons.prems have "\<not> prefix pat (b # bs @ ys)"
    by (cases pat) auto
  with Cons show ?case
    by (simp add: Let_def)
qed

lemma upd3: "(a # b # c # d # xs)[3 := y] = a # b # c # y # xs"
  by (simp add: numeral_3_eq_3)

lemma upd4: "(a # b # c # d # e # xs)[4 := y] = a # b # c # d # y # xs"
  by (simp add: numeral_eq_Suc)

lemma upd5: "(a # b # c # d # e # f # xs)[5 := y] = a # b # c # d # e # y # xs"
  by (simp add: numeral_eq_Suc)

lemma upd6: "(a # b # c # d # e # f # g # xs)[6 := y] = a # b # c # d # e # f # y # xs"
  by (simp add: numeral_eq_Suc)

lemma upd7: "(a # b # c # d # e # f # g # h # xs)[7 := y] = a # b # c # d # e # f # g # y # xs"
  by (simp add: numeral_eq_Suc)

lemma big_fmt:
  "indexOf riff_size_is_data (bytes_of ''fmt '') = 1163280739"
proof -
  have "indexOf (([82, 73, 70, 70, 100, 97, 116, 97, 87, 65, 86, 69] @ replicate 1163280727 0)
          @ [102, 109, 116, 32, 16, 0, 0, 0, 1, 0, 1, 0, 64, 31, 0, 0, 128, 62, 0, 0, 2, 0, 16, 0])
          (bytes_of ''fmt '')
        = int (length ([82, 73, 70, 70, 100, 97, 116, 97, 87, 65, 86, 69 :: byte] @ replicate 1163280727 0) + 0)"
    by (rule indexOf_skip) (simp_all add: bytes_of_def)
  then show ?thesis
    by (simp add: riff_size_is_data_def)
qed

lemma big_data: "indexOf riff_size_is_data (bytes_of ''data'') = 4"
  by (simp add: riff_size_is_data_def bytes_of_def)

lemma big_count: "to_double (1163280727 / 2) = Fin (1163280727 / 2)"
  by code_simp

lemma big_parse:
  "parseWav riff_size_is_data
   = Inr \<lparr> sampleRate = 8000, samples = replicate 1163280727 0,
           sampleCount = Fin (1163280727 / 2),
           header = [82, 73, 70, 70, 100, 97, 116, 97, 87, 65, 86, 69] \<rparr>"
proof -
  have m: "toString_ascii riff_size_is_data 0 4 = ''RIFF''"
    "toString_ascii riff_size_is_data 8 12 = ''WAVE''"
    by (simp_all add: toString_ascii_eq_iff slice_def bytes_of_def riff_size_is_data_def)
  have r: "readUInt16LE riff_size_is_data 1163280747 = Inr 1"
    "readUInt16LE riff_size_is_data 1163280749 = Inr 1"
    "readUInt32LE riff_size_is_data 1163280751 = Inr 8000"
    "readUInt16LE riff_size_is_data 1163280761 = Inr 16"
    "readUInt32LE riff_size_is_data 8 = Inr 1163280727"
    by (simp_all add: readUInt16LE_def readUInt32LE_def riff_size_is_data_def nth_append)
  have s: "slice riff_size_is_data 12 1163280739 = replicate 1163280727 0"
    "slice riff_size_is_data 0 12 = [82, 73, 70, 70, 100, 97, 116, 97, 87, 65, 86, 69]"
    by (simp_all add: slice_def riff_size_is_data_def)
  show ?thesis
    by (simp add: parseWav_def m big_fmt big_data r and_then_def Let_def s big_count)
qed


lemma big_process:
  "processFile chord_cos riff_size_is_data
   = Inr ([82, 73, 70, 87, 65, 86, 69, 69, 87, 65, 86, 69] @ replicate 1163280727 0)"
proof -
  obtain envelope where
    e: "breathingEnvelope chord_cos (Fin (1163280727 / 2)) (Fin 8000) = Inr envelope"
    and l: "length envelope = nat \<lfloor>1163280727 / 2 :: rat\<rfloor>"
    by (rule breathingEnvelope_Fin [of "1163280727 / 2" chord_cos "Fin 8000"]) simp
  have "\<lfloor>1163280727 / 2 :: rat\<rfloor> = 581640363"
    by (rule floor_unique) simp_all
  with l have "2 * length envelope \<le> 1163280727"
    by simp
  then have a: "apply_loop (replicate 1163280727 0) envelope 0 (replicate 1163280727 0)
                = Inr (replicate 1163280727 0)"
    by (rule apply_loop_zeros)
  have w1: "writeUInt32LE (82 # 73 # 70 # 70 # 100 # 97 # 116 # 97 # 87 # 65 # 86 # 69 # replicate 1163280727 0)
              1163280731 4
            = Inr (82 # 73 # 70 # 70 # 91 # 65 # 86 # 69 # 87 # 65 # 86 # 69 # replicate 1163280727 0)"
    by (simp add: writeUInt32LE_def upd4 upd5 upd6 upd7)
  have i: "indexOf (82 # 73 # 70 # 70 # 91 # 65 # 86 # 69 # 87 # 65 # 86 # 69 # replicate 1163280727 0)
             (bytes_of ''data'') = - 1"
    by (rule indexOf_absent) (simp_all add: bytes_of_def)
  have w2: "writeUInt32LE (82 # 73 # 70 # 70 # 91 # 65 # 86 # 69 # 87 # 65 # 86 # 69 # replicate 1163280727 0)
              1163280727 3
            = Inr (82 # 73 # 70 # 87 # 65 # 86 # 69 # 69 # 87 # 65 # 86 # 69 # replicate 1163280727 0)"
    by (simp add: writeUInt32LE_def upd3 upd4 upd5 upd6)
  show ?thesis
    apply (simp add: processFile_def big_parse and_then_def e applyEnvelopeToSamples_def a Let_def del: indexOf.simps)
  apply (simp only: w1 sum.case)
  apply (simp only: i)
  apply (simp add: w2)
  done
qed

section \<open>The size fields of the output (claim C4)\<close>

text \<open>
  Claim C4 says that in the output of every successfully processed file the field at
  offset 4 equals the output length minus 8. \<open>parseWav\<close> raises an error when its search
  for "data" returns -1; \<open>processFile\<close> searches the new buffer again after it has
  written the RIFF size and uses the result unchecked. On \<open>riff_size_is_data\<close> the first
  search finds "data" at offset 4, the first write replaces those bytes, the second search
  returns -1 and the second write lands on the offsets 3-6: the file is processed, the
  output is 1163280739 bytes long, and its field at offset 4 reads 1162171969 instead of
  1163280731.
\<close>

theorem processFile_misses_riff_size:
  "processFile chord_cos riff_size_is_data
     = Inr ([82, 73, 70, 87, 65, 86, 69, 69, 87, 65, 86, 69] @ replicate 1163280727 0)
   \<and> readUInt32LE ([82, 73, 70, 87, 65, 86, 69, 69, 87, 65, 86, 69] @ replicate 1163280727 0) 4
     = Inr 1162171969
   \<and> length ([82, 73, 70, 87, 65, 86, 69, 69, 87, 65, 86, 69 :: byte] @ replicate 1163280727 0) - 8
     = 1163280731"
  by (simp add: big_process readUInt32LE_def)

section \<open>The bytes in front of the payload (claim C8)\<close>

text \<open>
  Claim C8 says that every byte of the output in front of the payload equals the input
  byte, the two size fields apart. On \<open>riff_size_is_data\<close> the header is the first 12 bytes
  and the two size fields are the offsets 4-7 and 8-11; the second write of
  \<open>processFile\<close>, at the unchecked offset -1 + 4, replaces the byte at offset 3, the last
  letter of "RIFF", by 87.
\<close>

theorem processFile_rewrites_magic_byte:
  "processFile chord_cos riff_size_is_data
     = Inr ([82, 73, 70, 87, 65, 86, 69, 69, 87, 65, 86, 69] @ replicate 1163280727 0)
   \<and> parseWav riff_size_is_data
     = Inr \<lparr> sampleRate = 8000, samples = replicate 1163280727 0,
             sampleCount = Fin (1163280727 / 2),
             header = [82, 73, 70, 70, 100, 97, 116, 97, 87, 65, 86, 69] \<rparr>
   \<and> indexOf riff_size_is_data (bytes_of ''data'') = 4
   \<and> riff_size_is_data ! 3 = 70
   \<and> ([82, 73, 70, 87, 65, 86, 69, 69, 87, 65, 86, 69] @ replicate 1163280727 0) ! 3 = 87"
  by (simp add: big_process big_parse big_data) (simp add: riff_size_is_data_def)

theorem processFile_rewrites_magic_byte_witness:
  "processFile chord_cos riff_size_is_data \<noteq> Inl RangeError
   \<and> ([82, 73, 70, 87, 65, 86, 69, 69, 87, 65, 86, 69] @ replicate 1163280727 0) ! 3
     \<noteq> riff_size_is_data ! 3"
  using processFile_rewrites_magic_byte by simp

section \<open>Powers of two and rounding to an integer\<close>

lemma powi_pos [simp]: "0 < (2 :: rat) powi k"
  by simp


lemma powi_mono: "k \<le> l \<Longrightarrow> (2 :: rat) powi k \<le> 2 powi l"
  by (rule power_int_increasing) simp_all

lemma powi_strict_mono: "k < l \<Longrightarrow> (2 :: rat) powi k < 2 powi l"
  by (rule power_int_strict_increasing) simp_all

lemma powi_nat: "0 \<le> k \<Longrightarrow> (2 :: rat) powi k = of_int (2 ^ nat k)"
  by (simp add: power_int_def)

lemma bitlen_powi:
  assumes "0 < a"
  shows "(2 :: rat) powi (bitlen a - 1) \<le> of_int a" and "of_int a < (2 :: rat) powi bitlen a"
proof -
  from assms have b: "1 \<le> bitlen a"
    using bitlen_eq_zero_iff [of a] bitlen_nonneg [of a] by linarith
  from bitlen_bounds [OF assms] have l: "2 ^ nat (bitlen a - 1) \<le> a" and u: "a < 2 ^ nat (bitlen a)"
    by simp_all
  from l have "(of_int (2 ^ nat (bitlen a - 1)) :: rat) \<le> of_int a"
    by (simp only: of_int_le_iff)
  with b show "(2 :: rat) powi (bitlen a - 1) \<le> of_int a"
    by (simp add: powi_nat)
  from u have "(of_int a :: rat) < of_int (2 ^ nat (bitlen a))"
    by (simp only: of_int_less_iff)
  with b show "of_int a < (2 :: rat) powi bitlen a"
    by (simp add: powi_nat)
qed

lemma ilog2_bounds:
  assumes "0 < x"
  shows "2 powi ilog2 x \<le> x" and "x < 2 powi (ilog2 x + 1)"
proof -
  obtain a b where q: "quotient_of x = (a, b)"
    by (cases "quotient_of x")
  then have b: "0 < b" and x: "x = of_int a / of_int b"
    by (simp_all add: quotient_of_denom_pos quotient_of_div)
  from assms x b have a: "0 < a"
    by (simp add: zero_less_divide_iff)
  define d where "d = bitlen a - bitlen b"
  from b have xb: "x * of_int b = of_int a"
    by (simp add: x)
  have rb: "0 < (of_int b :: rat)"
    using b by simp
  have "x * of_int b < 2 powi bitlen a"
    using bitlen_powi(2) [OF a] xb by simp
  also have "\<dots> = 2 powi (d + 1) * 2 powi (bitlen b - 1)"
    by (simp add: d_def flip: power_int_add)
  also have "\<dots> \<le> 2 powi (d + 1) * of_int b"
    using bitlen_powi(1) [OF b] by (simp add: mult_left_mono)
  finally have up: "x < 2 powi (d + 1)"
    using rb by simp
  have "(2 :: rat) powi (d - 1) * of_int b < 2 powi (d - 1) * 2 powi bitlen b"
    using bitlen_powi(2) [OF b] by (simp add: mult_strict_left_mono)
  also have "\<dots> = 2 powi (bitlen a - 1)"
    by (simp add: d_def flip: power_int_add)
  also have "\<dots> \<le> x * of_int b"
    using bitlen_powi(1) [OF a] xb by simp
  finally have lo: "2 powi (d - 1) < x"
    using rb by simp
  have i: "ilog2 x = (if 2 powi d \<le> x then d else d - 1)"
    by (simp add: ilog2_def q d_def Let_def)
  show "2 powi ilog2 x \<le> x"
    using lo by (simp add: i)
  show "x < 2 powi (ilog2 x + 1)"
    using up by (simp add: i not_le)
qed


lemma rne_cases: "rne q = \<lfloor>q\<rfloor> \<and> q - of_int \<lfloor>q\<rfloor> \<le> 1 / 2
                  \<or> rne q = \<lfloor>q\<rfloor> + 1 \<and> 1 / 2 \<le> q - of_int \<lfloor>q\<rfloor>"
  by (auto simp: rne_def Let_def)

lemma rne_nearest: "\<bar>q - of_int (rne q)\<bar> \<le> \<bar>q - of_int n\<bar>"
proof -
  have f: "of_int \<lfloor>q\<rfloor> \<le> q" "q < of_int \<lfloor>q\<rfloor> + 1"
    by linarith+
  have "n \<le> \<lfloor>q\<rfloor> \<or> \<lfloor>q\<rfloor> + 1 \<le> n"
    by linarith
  then have n: "(of_int n :: rat) \<le> of_int \<lfloor>q\<rfloor> \<or> (of_int \<lfloor>q\<rfloor> :: rat) + 1 \<le> of_int n"
    by (metis of_int_le_iff of_int_add of_int_1)
  have lo: "\<bar>q - of_int \<lfloor>q\<rfloor>\<bar> \<le> \<bar>q - of_int n\<bar>" if "q - of_int \<lfloor>q\<rfloor> \<le> 1 / 2"
    using f n that by (elim disjE) linarith+
  have hi: "\<bar>q - (of_int \<lfloor>q\<rfloor> + 1)\<bar> \<le> \<bar>q - of_int n\<bar>" if "1 / 2 \<le> q - of_int \<lfloor>q\<rfloor>"
    using f n that by (elim disjE) linarith+
  from rne_cases [of q] show ?thesis
  proof (elim disjE conjE)
    assume "rne q = \<lfloor>q\<rfloor>" "q - of_int \<lfloor>q\<rfloor> \<le> 1 / 2"
    with lo show ?thesis by simp
  next
    assume "rne q = \<lfloor>q\<rfloor> + 1" "1 / 2 \<le> q - of_int \<lfloor>q\<rfloor>"
    with hi show ?thesis by simp
  qed
qed

lemma rne_ge:
  assumes "of_int n \<le> q"
  shows "n \<le> rne q"
proof -
  from assms have "n \<le> \<lfloor>q\<rfloor>"
    by (simp add: le_floor_iff)
  with rne_cases [of q] show ?thesis
    by auto
qed

lemma rne_le:
  assumes "q \<le> of_int n"
  shows "rne q \<le> n"
proof (cases "q = of_int n")
  case True
  then show ?thesis
    by (simp add: rne_def)
next
  case False
  with assms have "q < of_int n"
    by simp
  then have "\<lfloor>q\<rfloor> < n"
    by (simp add: floor_less_iff)
  with rne_cases [of q] show ?thesis
    by auto
qed

section \<open>Rounding to a floating-point format\<close>

lemma round_to_grid:
  assumes "x \<noteq> 0"
  shows "round_to p emin x
         = of_int (rne (x / 2 powi (grid_exp emin x - int p + 1))) * 2 powi (grid_exp emin x - int p + 1)"
  using assms by (simp add: round_to_def grid_exp_def Let_def)

lemma round_to_0 [simp]: "round_to p emin 0 = 0"
  by (simp add: round_to_def)

lemma round_to_nearest_grid:
  assumes "x \<noteq> 0"
  shows "\<bar>x - round_to p emin x\<bar> \<le> \<bar>x - of_int n * 2 powi (grid_exp emin x - int p + 1)\<bar>"
proof -
  define u :: rat where "u = 2 powi (grid_exp emin x - int p + 1)"
  have u: "0 < u"
    by (simp add: u_def)
  have "\<bar>x / u - of_int (rne (x / u))\<bar> \<le> \<bar>x / u - of_int n\<bar>"
    by (rule rne_nearest)
  then have h: "\<bar>x / u - of_int (rne (x / u))\<bar> * u \<le> \<bar>x / u - of_int n\<bar> * u"
    using u by (simp add: mult_right_mono)
  have eq: "\<bar>x / u - of_int k\<bar> * u = \<bar>x - of_int k * u\<bar>" for k
  proof -
    have "\<bar>x / u - of_int k\<bar> * u = \<bar>(x / u - of_int k) * u\<bar>"
      using u by (simp add: abs_mult)
    also have "(x / u - of_int k) * u = x - of_int k * u"
      using u by (simp add: field_simps)
    finally show ?thesis .
  qed
  from h have "\<bar>x - of_int (rne (x / u)) * u\<bar> \<le> \<bar>x - of_int n * u\<bar>"
    unfolding eq .
  then show ?thesis
    unfolding round_to_grid [OF assms] u_def .
qed

lemma representable_grid:
  assumes "representable p emin a"
  shows "(\<exists>n. a = of_int n * 2 powi (e - int p + 1)) \<or> (\<bar>a\<bar> < 2 powi e \<and> emin < e)"
proof -
  from assms obtain m k where a: "a = of_int m * 2 powi k" and m: "\<bar>m\<bar> < 2 ^ p"
    and k: "emin - int p + 1 \<le> k"
    by (auto simp: representable_def)
  show ?thesis
  proof (cases "e - int p + 1 \<le> k")
    case True
    define j where "j = k - (e - int p + 1)"
    with True have j: "0 \<le> j" and kj: "k = j + (e - int p + 1)"
      by simp_all
    have "a = of_int m * (2 powi j * 2 powi (e - int p + 1))"
      unfolding a kj by (simp add: power_int_add)
    also have "\<dots> = of_int (m * 2 ^ nat j) * 2 powi (e - int p + 1)"
      using j by (simp add: powi_nat)
    finally show ?thesis
      by blast
  next
    case False
    then have ke: "k + int p \<le> e"
      by simp
    have "(of_int \<bar>m\<bar> :: rat) < of_int (2 ^ p)"
      using m by (simp only: of_int_less_iff)
    then have "\<bar>of_int m :: rat\<bar> < 2 powi int p"
      by (simp add: power_int_def)
    then have "\<bar>a\<bar> < 2 powi int p * 2 powi k"
      unfolding a by (simp add: abs_mult mult_strict_right_mono)
    also have "\<dots> = 2 powi (k + int p)"
      by (simp add: power_int_add add.commute)
    also have "\<dots> \<le> 2 powi e"
      using ke by (rule powi_mono)
    finally have "\<bar>a\<bar> < 2 powi e" .
    moreover from k False have "emin < e"
      by simp
    ultimately show ?thesis
      by blast
  qed
qed

lemma abs_ge_grid_exp:
  assumes "x \<noteq> 0" and "emin < grid_exp emin x"
  shows "2 powi grid_exp emin x \<le> \<bar>x\<bar>"
proof -
  from assms(2) have "grid_exp emin x = ilog2 \<bar>x\<bar>"
    by (simp add: grid_exp_def max_def split: if_splits)
  with ilog2_bounds(1) [of "\<bar>x\<bar>"] assms(1) show ?thesis
    by simp
qed

lemma abs_less_grid_exp:
  assumes "x \<noteq> 0"
  shows "\<bar>x\<bar> < 2 powi (grid_exp emin x + 1)"
proof -
  have "\<bar>x\<bar> < 2 powi (ilog2 \<bar>x\<bar> + 1)"
    using ilog2_bounds(2) [of "\<bar>x\<bar>"] assms by simp
  also have "\<dots> \<le> 2 powi (grid_exp emin x + 1)"
    by (rule powi_mono) (simp add: grid_exp_def)
  finally show ?thesis .
qed

theorem round_to_nearest:
  assumes "0 < p" and "representable p emin a"
  shows "\<bar>x - round_to p emin x\<bar> \<le> \<bar>x - a\<bar>"
proof (cases "x = 0")
  case True
  then show ?thesis by simp
next
  case False
  define e where "e = grid_exp emin x"
  from representable_grid [OF assms(2), of e]
  show ?thesis
  proof
    assume "\<exists>n. a = of_int n * 2 powi (e - int p + 1)"
    then show ?thesis
      using round_to_nearest_grid [OF False, of p emin] by (auto simp: e_def)
  next
    assume "\<bar>a\<bar> < 2 powi e \<and> emin < e"
    then have a: "\<bar>a\<bar> < 2 powi e" and "emin < e"
      by simp_all
    then have x: "2 powi e \<le> \<bar>x\<bar>"
      using abs_ge_grid_exp [OF False, of emin] by (simp add: e_def)
    define s :: int where "s = (if 0 < x then 1 else - 1)"
    have "2 powi e = (of_int (2 ^ (p - 1)) :: rat) * 2 powi (e - int p + 1)"
    proof -
      have "(of_int (2 ^ (p - 1)) :: rat) = 2 powi (int p - 1)"
        using assms(1) by (simp add: power_int_def nat_diff_distrib')
      then show ?thesis
        by (simp flip: power_int_add)
    qed
    then have g: "(of_int (s * 2 ^ (p - 1)) :: rat) * 2 powi (e - int p + 1) = of_int s * 2 powi e"
      by (simp only: of_int_mult mult.assoc)
    have "\<bar>x - round_to p emin x\<bar>
          \<le> \<bar>x - of_int (s * 2 ^ (p - 1)) * 2 powi (e - int p + 1)\<bar>"
      unfolding e_def by (rule round_to_nearest_grid [OF False])
    then have "\<bar>x - round_to p emin x\<bar> \<le> \<bar>x - of_int s * 2 powi e\<bar>"
      unfolding g .
    also have "\<dots> = \<bar>x\<bar> - 2 powi e"
      using x False by (auto simp: s_def abs_if split: if_splits)
    also have "\<dots> \<le> \<bar>x - a\<bar>"
      using a by linarith
    finally show ?thesis .
  qed
qed

lemma representable_round_to:
  assumes "0 < p"
  shows "representable p emin (round_to p emin x)"
proof (cases "x = 0")
  case True
  have "(0 :: rat) = of_int 0 * 2 powi (emin - int p + 1)"
    by simp
  then have "representable p emin 0"
    unfolding representable_def by (intro exI [of _ 0] exI [of _ "emin - int p + 1"]) simp
  with True show ?thesis
    by simp
next
  case False
  define e where "e = grid_exp emin x"
  define u :: rat where "u = 2 powi (e - int p + 1)"
  define r where "r = rne (x / u)"
  have u: "0 < u"
    by (simp add: u_def)
  have e: "emin \<le> e"
    by (simp add: e_def grid_exp_def)
  have ru: "round_to p emin x = of_int r * u"
    by (simp add: round_to_grid [OF False] r_def u_def e_def)
  have pu: "2 powi (e + 1) = (of_int (2 ^ p) :: rat) * u"
  proof -
    have "(2 :: rat) powi (e + 1) = 2 powi (int p + (e - int p + 1))"
      by simp
    also have "\<dots> = 2 powi int p * 2 powi (e - int p + 1)"
      by (rule power_int_add) simp
    also have "(2 :: rat) powi int p = of_int (2 ^ p)"
      by (simp add: power_int_def)
    finally show ?thesis
      by (simp only: u_def)
  qed
  have "\<bar>x\<bar> < 2 powi (e + 1)"
    unfolding e_def by (rule abs_less_grid_exp [OF False])
  then have "\<bar>x\<bar> < of_int (2 ^ p) * u"
    unfolding pu .
  then have "\<bar>x\<bar> / u < of_int (2 ^ p)"
    using u by (simp only: pos_divide_less_eq)
  moreover have "\<bar>x / u\<bar> = \<bar>x\<bar> / u"
    using u by (simp only: abs_divide abs_of_pos)
  ultimately have "\<bar>x / u\<bar> < of_int (2 ^ p)"
    by (simp only:)
  then have "x / u \<le> of_int (2 ^ p)" "- of_int (2 ^ p) \<le> x / u"
    by linarith+
  then have b: "x / u \<le> of_int (2 ^ p)" "of_int (- (2 ^ p)) \<le> x / u"
    by (simp_all only: of_int_minus)
  have "r \<le> 2 ^ p"
    unfolding r_def by (rule rne_le [OF b(1)])
  moreover have "- (2 ^ p) \<le> r"
    unfolding r_def by (rule rne_ge [OF b(2)])
  ultimately have "r \<le> 2 ^ p" "- (2 ^ p) \<le> r"
    by simp_all
  then consider "\<bar>r\<bar> < 2 ^ p" | "r = 2 ^ p" | "r = - (2 ^ p)"
    by linarith
  then show ?thesis
  proof cases
    case 1
    with e show ?thesis
      unfolding representable_def ru u_def
      by (intro exI [of _ r] exI [of _ "e - int p + 1"]) simp
  next
    case 2
    then have "of_int r * u = of_int 1 * 2 powi (e + 1)"
      by (simp add: pu)
    moreover have "\<bar>1 :: int\<bar> < 2 ^ p"
      using assms by simp
    ultimately show ?thesis
      unfolding representable_def ru using e
      by (intro exI [of _ 1] exI [of _ "e + 1"]) simp
  next
    case 3
    then have "of_int r * u = of_int (- 1) * 2 powi (e + 1)"
      by (simp add: pu)
    moreover have "\<bar>- 1 :: int\<bar> < 2 ^ p"
      using assms by simp
    ultimately show ?thesis
      unfolding representable_def ru using e
      by (intro exI [of _ "- 1"] exI [of _ "e + 1"]) simp
  qed
qed


theorem round_to_ge:
  assumes "0 < p" and "representable p emin a" and "a \<le> x"
  shows "a \<le> round_to p emin x"
  using round_to_nearest [OF assms(1,2), of x] assms(3) by linarith

theorem round_to_le:
  assumes "0 < p" and "representable p emin a" and "x \<le> a"
  shows "round_to p emin x \<le> a"
  using round_to_nearest [OF assms(1,2), of x] assms(3) by linarith

theorem round_to_mono:
  assumes "0 < p" and "x \<le> y"
  shows "round_to p emin x \<le> round_to p emin y"
proof (rule ccontr)
  assume "\<not> ?thesis"
  then have lt: "round_to p emin y < round_to p emin x"
    by simp
  have "\<bar>x - round_to p emin x\<bar> \<le> \<bar>x - round_to p emin y\<bar>"
    by (rule round_to_nearest [OF assms(1) representable_round_to [OF assms(1)]])
  moreover have "\<bar>y - round_to p emin y\<bar> \<le> \<bar>y - round_to p emin x\<bar>"
    by (rule round_to_nearest [OF assms(1) representable_round_to [OF assms(1)]])
  ultimately have "x = y"
    using lt assms(2) by linarith
  with lt show False
    by simp
qed

lemma representable_of_int:
  assumes "\<bar>n\<bar> < 2 ^ p" and "emin - int p + 1 \<le> 0"
  shows "representable p emin (of_int n)"
  unfolding representable_def using assms
  by (intro exI [of _ n] exI [of _ 0]) simp

lemma representable_powi:
  assumes "0 < p" and "emin - int p + 1 \<le> k"
  shows "representable p emin (2 powi k)"
  unfolding representable_def using assms
  by (intro exI [of _ 1] exI [of _ k]) simp

lemma representable_half:
  assumes "\<bar>n\<bar> < 2 ^ p" and "emin - int p + 1 \<le> - 1"
  shows "representable p emin (of_int n / 2)"
  unfolding representable_def using assms
  by (intro exI [of _ n] exI [of _ "- 1"]) (simp add: power_int_minus)

lemma representable_minus:
  "representable p emin a \<Longrightarrow> representable p emin (- a)"
  unfolding representable_def
  by (elim exE conjE, rule_tac x="- m" in exI, rule_tac x=k in exI) simp

section \<open>Doubles, singles and the scaled sample\<close>

lemma to_double_range:
  assumes "representable 53 (- 1022) lo" and "representable 53 (- 1022) hi"
    and "- max_double \<le> lo" and "hi \<le> max_double" and "lo \<le> x" and "x \<le> hi"
  shows "\<exists>r. to_double x = Fin r \<and> lo \<le> r \<and> r \<le> hi"
proof -
  have "lo \<le> fl64 x"
    unfolding fl64_def by (rule round_to_ge [OF _ assms(1,5)]) simp
  moreover have "fl64 x \<le> hi"
    unfolding fl64_def by (rule round_to_le [OF _ assms(2,6)]) simp
  ultimately show ?thesis
    using assms(3,4) by (simp add: to_double_def Let_def)
qed


lemma to_float32_range:
  assumes "representable 24 (- 126) lo" and "representable 24 (- 126) hi"
    and "- max_float32 \<le> lo" and "hi \<le> max_float32" and "lo \<le> x" and "x \<le> hi"
  shows "\<exists>r. to_float32 (Fin x) = Fin r \<and> lo \<le> r \<and> r \<le> hi"
proof -
  have "lo \<le> fl32 x"
    unfolding fl32_def by (rule round_to_ge [OF _ assms(1,5)]) simp
  moreover have "fl32 x \<le> hi"
    unfolding fl32_def by (rule round_to_le [OF _ assms(2,6)]) simp
  ultimately show ?thesis
    using assms(3,4) by (simp add: Let_def)
qed

lemma rep64_int: "\<bar>n\<bar> < 9007199254740992 \<Longrightarrow> representable 53 (- 1022) (of_int n)"
  by (rule representable_of_int) simp_all

lemma rep32_int: "\<bar>n\<bar> < 16777216 \<Longrightarrow> representable 24 (- 126) (of_int n)"
  by (rule representable_of_int) simp_all

lemma rep64_numeral [simp]:
  "representable 53 (- 1022) 0" "representable 53 (- 1022) 1" "representable 53 (- 1022) (- 1)"
  "representable 53 (- 1022) 2" "representable 53 (- 1022) (- 2)"
  "representable 53 (- 1022) 32767" "representable 53 (- 1022) (- 32767)"
  "representable 53 (- 1022) (1 / 2)" "representable 53 (- 1022) (- (1 / 2))"
  using rep64_int [of 0] rep64_int [of 1] rep64_int [of "- 1"] rep64_int [of 2]
    rep64_int [of "- 2"] rep64_int [of 32767] rep64_int [of "- 32767"]
    representable_half [of 1 53 "- 1022"] representable_minus [OF representable_half [of 1 53 "- 1022"]]
  by simp_all

lemma rep32_numeral [simp]:
  "representable 24 (- 126) 0" "representable 24 (- 126) 1"
  using rep32_int [of 0] rep32_int [of 1] by simp_all


lemma sample_quotient:
  assumes "- 32768 \<le> s" and "s \<le> 32767"
  shows "\<exists>r. js_div (Fin (of_int s)) (Fin 32767) = Fin r \<and> - 2 \<le> r \<and> r \<le> 2"
proof -
  have "- 2 \<le> (of_int s :: rat) / 32767" "(of_int s :: rat) / 32767 \<le> 2"
    using assms by (simp_all add: field_simps)
  then show ?thesis
    using to_double_range [of "- 2" 2 "of_int s / 32767"] by (simp add: max_double_def)
qed


section \<open>The loop over the samples, sample by sample\<close>


lemma to_integer_of_int [simp]: "to_integer (Fin (of_int n)) = n"
  by simp









section \<open>The transform of one sample (claim C1)\<close>



section \<open>The values of the envelope\<close>

lemma rep64_powi: "- 1074 \<le> k \<Longrightarrow> representable 53 (- 1022) (2 powi k)"
  by (rule representable_powi) simp_all

lemma powi_le_max_double:
  assumes "k \<le> 1023"
  shows "(2 :: rat) powi k \<le> max_double"
proof -
  from assms have "(2 :: rat) powi k \<le> 2 powi 1023"
    by (intro power_int_increasing) simp_all
  also have "\<dots> \<le> max_double"
    by (simp add: max_double_def)
  finally show ?thesis .
qed

lemma to_double_nonneg:
  assumes "0 \<le> x" and "x \<le> 2 powi k" and "- 1074 \<le> k" and "k \<le> 1023"
  shows "\<exists>r. to_double x = Fin r \<and> 0 \<le> r \<and> r \<le> 2 powi k"
proof -
  have "- max_double \<le> 0"
    by (simp add: max_double_def)
  from to_double_range [OF _ rep64_powi [OF assms(3)] this powi_le_max_double [OF assms(4)] assms(1,2)]
  show ?thesis
    by simp
qed

lemma to_double_pos:
  assumes "2 powi j \<le> x" and "x \<le> 2 powi k" and "- 1074 \<le> j" and "- 1074 \<le> k" and "k \<le> 1023"
  shows "\<exists>r. to_double x = Fin r \<and> 2 powi j \<le> r \<and> r \<le> 2 powi k"
proof -
  have "- max_double \<le> (0 :: rat)"
    by (simp add: max_double_def)
  also have "(0 :: rat) \<le> 2 powi j"
    by simp
  finally have "- max_double \<le> 2 powi j" .
  from to_double_range [OF rep64_powi [OF assms(3)] rep64_powi [OF assms(4)] this
      powi_le_max_double [OF assms(5)] assms(1,2)]
  show ?thesis .
qed

lemma to_double_half_range:
  assumes "- (1 / 2) \<le> x" and "x \<le> 1 / 2"
  shows "\<exists>r. to_double x = Fin r \<and> - (1 / 2) \<le> r \<and> r \<le> 1 / 2"
  by (rule to_double_range [OF _ _ _ _ assms]) (simp_all add: max_double_def)

lemma to_double_unit_range:
  assumes "0 \<le> x" and "x \<le> 1"
  shows "\<exists>r. to_double x = Fin r \<and> 0 \<le> r \<and> r \<le> 1"
  by (rule to_double_range [OF _ _ _ _ assms]) (simp_all add: max_double_def)

lemma to_float32_unit_range:
  assumes "0 \<le> x" and "x \<le> 1"
  shows "\<exists>r. to_float32 (Fin x) = Fin r \<and> 0 \<le> r \<and> r \<le> 1"
  by (rule to_float32_range [OF _ _ _ _ assms]) (simp_all add: max_float32_def)

lemma amp_of_cosine:
  assumes "- 1 \<le> c" and "c \<le> 1"
  shows "\<exists>a. to_float32 (js_sub (Fin (1 / 2)) (js_mul (Fin (1 / 2)) (Fin c))) = Fin a
              \<and> 0 \<le> a \<and> a \<le> 1"
    and "\<exists>a. to_float32 (js_add (Fin (1 / 2)) (js_mul (Fin (1 / 2)) (Fin c))) = Fin a
              \<and> 0 \<le> a \<and> a \<le> 1"
proof -
  from assms have "- (1 / 2) \<le> 1 / 2 * c" "1 / 2 * c \<le> 1 / 2"
    by simp_all
  from to_double_half_range [OF this] obtain m where
    m: "to_double (1 / 2 * c) = Fin m" "- (1 / 2) \<le> m" "m \<le> 1 / 2"
    by blast
  from m(2,3) have "0 \<le> 1 / 2 - m" "1 / 2 - m \<le> 1" "0 \<le> 1 / 2 + m" "1 / 2 + m \<le> 1"
    by simp_all
  from to_double_unit_range [OF this(1,2)] to_double_unit_range [OF this(3,4)]
  obtain a b where a: "to_double (1 / 2 - m) = Fin a" "0 \<le> a" "a \<le> 1"
    and b: "to_double (1 / 2 + m) = Fin b" "0 \<le> b" "b \<le> 1"
    by blast
  from to_float32_unit_range [OF a(2,3)] m(1) a(1)
  show "\<exists>a. to_float32 (js_sub (Fin (1 / 2)) (js_mul (Fin (1 / 2)) (Fin c))) = Fin a
              \<and> 0 \<le> a \<and> a \<le> 1"
    by simp
  from to_float32_unit_range [OF b(2,3)] m(1) b(1)
  show "\<exists>a. to_float32 (js_add (Fin (1 / 2)) (js_mul (Fin (1 / 2)) (Fin c))) = Fin a
              \<and> 0 \<le> a \<and> a \<le> 1"
    by simp
qed

lemma math_PI_product:
  assumes "0 \<le> x" and "x \<le> 2 powi 65"
  shows "\<exists>y. js_mul math_PI (Fin x) = Fin y"
proof -
  have "884279719003555 / 281474976710656 * x \<le> 4 * x"
    using assms(1) by (intro mult_right_mono) simp_all
  also have "\<dots> \<le> 4 * 2 powi 65"
    using assms(2) by simp
  also have "\<dots> = 2 powi 67"
    by simp
  finally have "884279719003555 / 281474976710656 * x \<le> 2 powi 67" .
  moreover have "0 \<le> 884279719003555 / 281474976710656 * x"
    using assms(1) by simp
  ultimately show ?thesis
    using to_double_nonneg [of "884279719003555 / 281474976710656 * x" 67]
    by (auto simp: math_PI_def)
qed

lemma envelope_amp_range:
  assumes mcos: "\<And>x. \<exists>c. mcos (Fin x) = Fin c \<and> - 1 \<le> c \<and> c \<le> 1"
    and n: "1 \<le> n" "n \<le> 4294967296" and r: "1 \<le> r" "r \<le> 4294967296"
    and i: "0 \<le> i" "i \<le> n"
  shows "\<exists>a. to_float32 (envelope_amp mcos (js_div (js_div (Fin n) (Fin r)) (Fin 2))
                 (js_div (Fin i) (Fin r))) = Fin a \<and> 0 \<le> a \<and> a \<le> 1"
proof -
  have p: "(2 :: rat) powi 32 = 4294967296" "(2 :: rat) powi (- 32) = 1 / 4294967296"
    "(2 :: rat) powi (- 33) = 1 / 8589934592" "(2 :: rat) powi 31 = 2147483648"
    "(2 :: rat) powi 65 = 36893488147419103232"
    by (simp_all add: power_int_minus)
  have r0: "0 < r" "r \<noteq> 0"
    using r(1) by simp_all
  have "n / r \<le> n / 1"
    using n(1) r(1) by (intro divide_left_mono) simp_all
  with n(2) have "n / r \<le> 2 powi 32"
    by (simp add: p)
  moreover have "1 / 4294967296 \<le> n / r"
    using n(1) r r0 by (simp add: field_simps)
  ultimately obtain d where d: "js_div (Fin n) (Fin r) = Fin d" "2 powi (- 32) \<le> d" "d \<le> 2 powi 32"
    using to_double_pos [of "- 32" "n / r" 32] r0 by (auto simp: p)
  have "2 powi (- 33) \<le> d / 2" "d / 2 \<le> 2 powi 31"
    using d(2,3) by (simp_all add: p)
  from to_double_pos [OF this] obtain h where
    h: "js_div (Fin d) (Fin 2) = Fin h" "2 powi (- 33) \<le> h" "h \<le> 2 powi 31"
    by auto
  have h0: "0 < h" "h \<noteq> 0"
    using h(2) by (simp_all add: p)
  have "i / r \<le> i / 1"
    using i(1) r(1) by (intro divide_left_mono) simp_all
  with i(2) n(2) have "i / r \<le> 2 powi 32"
    by (simp add: p)
  moreover have "0 \<le> i / r"
    using i(1) r0 by simp
  ultimately obtain t where t: "js_div (Fin i) (Fin r) = Fin t" "0 \<le> t" "t \<le> 2 powi 32"
    using to_double_nonneg [of "i / r" 32] r0 by auto
  show ?thesis
  proof (cases "t \<le> h")
    case True
    with t(2) h0 have "0 \<le> t / h" "t / h \<le> 1"
      by simp_all
    from to_double_unit_range [OF this] obtain x where
      x: "to_double (t / h) = Fin x" "0 \<le> x" "x \<le> 1"
      by blast
    from x(3) have "x \<le> 2 powi 65"
      by (simp add: p)
    from math_PI_product [OF x(2) this] obtain y where y: "js_mul math_PI (Fin x) = Fin y"
      by blast
    from mcos [of y] obtain c where c: "mcos (Fin y) = Fin c" "- 1 \<le> c" "c \<le> 1"
      by blast
    show ?thesis
      unfolding d(1) h(1) t(1) envelope_amp_def inhale_test_def inhale_amp_def
      using amp_of_cosine(1) [OF c(2,3)] True h0 by (simp add: x y c)
  next
    case False
    with t(3) h0 have "0 \<le> t - h" "t - h \<le> 2 powi 32"
      by simp_all
    from to_double_nonneg [OF this] obtain u where
      u: "to_double (t - h) = Fin u" "0 \<le> u" "u \<le> 2 powi 32"
      by auto
    have "u / h \<le> 4294967296 / h"
      using u(3) h0 by (simp add: divide_right_mono p)
    also have "\<dots> \<le> 4294967296 / (1 / 8589934592)"
      using h(2) by (intro divide_left_mono) (simp_all add: p)
    also have "\<dots> = 2 powi 65"
      by (simp add: p)
    finally have "u / h \<le> 2 powi 65" .
    moreover have "0 \<le> u / h"
      using u(2) h0 by simp
    ultimately obtain x where x: "to_double (u / h) = Fin x" "0 \<le> x" "x \<le> 2 powi 65"
      using to_double_nonneg [of "u / h" 65] by auto
    from math_PI_product [OF x(2,3)] obtain y where y: "js_mul math_PI (Fin x) = Fin y"
      by blast
    from mcos [of y] obtain c where c: "mcos (Fin y) = Fin c" "- 1 \<le> c" "c \<le> 1"
      by blast
    show ?thesis
      unfolding d(1) h(1) t(1) envelope_amp_def inhale_test_def exhale_amp_def
      using amp_of_cosine(2) [OF c(2,3)] False h0 by (simp add: u x y c)
  qed
qed

lemma envelope_loop_nth:
  assumes "k < length envelope"
  shows "envelope_loop mcos n rate h i envelope ! k
         = (if i \<le> k \<and> of_nat k < n
            then to_float32 (envelope_amp mcos h (js_div (Fin (of_nat k)) rate))
            else envelope ! k)"
  using assms
proof (induction mcos n rate h i envelope rule: envelope_loop.induct)
  case (1 mcos n rate h i envelope)
  show ?case
  proof (cases "of_nat i < n")
    case True
    have "envelope_loop mcos n rate h i envelope ! k
          = envelope_loop mcos n rate h (Suc i)
              (float32_store envelope i (envelope_amp mcos h (js_div (Fin (of_nat i)) rate))) ! k"
      using True by (simp add: envelope_loop.simps [of mcos n rate h i envelope] Let_def)
    also have "\<dots> = (if Suc i \<le> k \<and> of_nat k < n
            then to_float32 (envelope_amp mcos h (js_div (Fin (of_nat k)) rate))
            else float32_store envelope i (envelope_amp mcos h (js_div (Fin (of_nat i)) rate)) ! k)"
      using "1.prems" by (intro "1.IH" [OF True refl refl]) simp
    also have "\<dots> = (if i \<le> k \<and> of_nat k < n
            then to_float32 (envelope_amp mcos h (js_div (Fin (of_nat k)) rate))
            else envelope ! k)"
      using True "1.prems" by (cases "k = i") (auto simp: float32_store_def)
    finally show ?thesis .
  next
    case False
    have neg: "\<not> (i \<le> k \<and> of_nat k < n)"
    proof
      assume "i \<le> k \<and> of_nat k < n"
      then have "(of_nat i :: rat) \<le> of_nat k" "of_nat k < n"
        by simp_all
      with False show False
        by simp
    qed
    have e: "envelope_loop mcos n rate h i envelope = envelope"
      using False by (simp add: envelope_loop.simps [of mcos n rate h i envelope])
    show ?thesis
      by (simp only: e if_not_P [OF neg])
  qed
qed

section \<open>The bounds of the envelope (claim C5)\<close>

lemma chord_cos_range: "\<exists>c. chord_cos (Fin x) = Fin c \<and> - 1 \<le> c \<and> c \<le> 1"
  by simp

text \<open>
  Claim C5. For every cosine that maps every finite argument to a finite value in
  \<open>[-1, 1]\<close>, every sample count \<open>N\<close> with \<open>0 < N \<le> 2\<^sup>3\<^sup>2\<close> and every sample rate \<open>R\<close>
  with \<open>1 \<le> R \<le> 2\<^sup>3\<^sup>2\<close> (the parser reads both from 32-bit fields),
  \<^verbatim>\<open>breathingEnvelope\<close> returns an envelope of \<open>\<lfloor>N\<rfloor>\<close> values, and every value of it
  is a finite number in the closed interval \<open>[0, 1]\<close>.
\<close>

theorem envelope_bounds:
  assumes "\<forall>x. \<exists>c. mcos (Fin x) = Fin c \<and> - 1 \<le> c \<and> c \<le> 1"
    and "0 < n" and "n \<le> 4294967296" and "1 \<le> r" and "r \<le> 4294967296"
  shows "\<exists>envelope. breathingEnvelope mcos (Fin n) (Fin r) = Inr envelope
           \<and> length envelope = nat \<lfloor>n\<rfloor>
           \<and> (\<forall>i<length envelope. \<exists>a. envelope ! i = Fin a \<and> 0 \<le> a \<and> a \<le> 1)"
proof -
  define h where "h = js_div (js_div (Fin n) (Fin r)) (Fin 2)"
  define envelope where
    "envelope = envelope_loop mcos n (Fin r) h 0 (replicate (nat \<lfloor>n\<rfloor>) (Fin 0))"
  have b: "breathingEnvelope mcos (Fin n) (Fin r) = Inr envelope"
    using assms(2) by (simp add: breathingEnvelope_def Let_def envelope_def h_def)
  have l: "length envelope = nat \<lfloor>n\<rfloor>"
    by (simp add: envelope_def envelope_loop_length)
  have "\<exists>a. envelope ! i = Fin a \<and> 0 \<le> a \<and> a \<le> 1" if "i < length envelope" for i
  proof -
    from that l have "int i + 1 \<le> \<lfloor>n\<rfloor>"
      by linarith
    then have "of_int (int i + 1) \<le> n"
      by (simp only: le_floor_iff)
    then have i: "of_nat i + 1 \<le> n"
      by simp
    then have n: "1 \<le> n" "of_nat i < n" "of_nat i \<le> n"
      by (simp_all add: add_increasing)
    from that l have "envelope ! i = to_float32 (envelope_amp mcos h (js_div (Fin (of_nat i)) (Fin r)))"
      unfolding envelope_def using n(2) by (subst envelope_loop_nth) simp_all
    with envelope_amp_range [of mcos n r "of_nat i"] assms(1,3,4,5) n show ?thesis
      by (simp add: h_def)
  qed
  with b l show ?thesis
    by simp
qed

theorem envelope_bounds_witness:
  "(\<forall>x. \<exists>c. chord_cos (Fin x) = Fin c \<and> - 1 \<le> c \<and> c \<le> 1)
   \<and> (0 :: rat) < 2 \<and> (2 :: rat) \<le> 4294967296 \<and> (1 :: rat) \<le> 8000 \<and> (8000 :: rat) \<le> 4294967296
   \<and> breathingEnvelope chord_cos (Fin 2) (Fin 8000) = Inr [Fin 0, Fin 1]
   \<and> (\<exists>a. [Fin 0, Fin 1] ! 1 = Fin a \<and> 0 \<le> a \<and> a \<le> 1)"
proof -
  have c: "\<forall>x. \<exists>c. chord_cos (Fin x) = Fin c \<and> - 1 \<le> c \<and> c \<le> 1"
    by simp
  from envelope_bounds [OF c, of 2 8000] obtain envelope where
    e: "breathingEnvelope chord_cos (Fin 2) (Fin 8000) = Inr envelope"
    and l: "length envelope = 2"
    and k: "\<forall>i<length envelope. \<exists>a. envelope ! i = Fin a \<and> 0 \<le> a \<and> a \<le> 1"
    by auto
  from e have "envelope = [Fin 0, Fin 1]"
    by (simp add: fixture_envelope)
  with k [rule_format, of 1] e c show ?thesis
    by simp
qed

section \<open>Reading past the end of the payload\<close>





section \<open>The declared size of the data chunk (claim C10)\<close>





lemma fixture_fields:
  "indexOf (wav_header 1 1 16 4 @ [255, 127, 255, 127]) (bytes_of ''data'') = 36"
  "readUInt32LE (wav_header 1 1 16 4 @ [255, 127, 255, 127]) 40 = Inr 4"
  "length (wav_header 1 1 16 4 @ [255, 127, 255, 127]) = 48"
  by code_simp+




section \<open>Halving a double, and the start and the middle of the envelope\<close>









section \<open>The ends and the middle of the envelope (claim C7)\<close>






end
